theory Spec2Isabelle
  imports Main
begin

section \<open>The crawl engine of src/app/api/analyze/route.ts\<close>

text \<open>
  The route handler \<open>GET\<close> starts \<open>analyzeWebsite\<close>, which drives a FIFO queue of URLs:
  each URL is fetched by \<open>analyzePage\<close>, its record is written to the response stream,
  and, when the record's status code is 200, \<open>extractUrls\<close> fetches the page again and
  returns its same-host links. Three things are outside the repository and are
  parameters or data of the model:
  \<^item> the platform's URL parser (\<open>new URL(s)\<close>, which throws on an invalid URL) is the
    parameter \<open>parseURL\<close>, with \<open>None\<close> for the exception;
  \<^item> the network is the parameter \<open>web\<close>: the outcome of the \<open>k\<close>-th call of \<open>fetch\<close>,
    for the URL it asks for;
  \<^item> an HTML document, as cheerio sees it, is the list of its elements in document
    order; a selector is a filter on that list.
  Writes to the response stream are taken to succeed: the stream is the list of the
  events written, in order.
\<close>

subsection \<open>Strings\<close>

fun startsWith :: "string \<Rightarrow> string \<Rightarrow> bool" where
  "startsWith s [] = True"
| "startsWith [] (p # ps) = False"
| "startsWith (c # cs) (p # ps) = (c = p \<and> startsWith cs ps)"

definition endsWith :: "string \<Rightarrow> string \<Rightarrow> bool" where
  "endsWith s p = startsWith (rev s) (rev p)"

fun str_includes :: "string \<Rightarrow> string \<Rightarrow> bool" where
  "str_includes [] p = (p = [])"
| "str_includes (c # cs) p = (startsWith (c # cs) p \<or> str_includes cs p)"

text \<open>The lower case of an ASCII letter.\<close>

definition lower :: "char \<Rightarrow> char" where
  "lower c = (let n = (of_char c :: nat) in if 65 \<le> n \<and> n \<le> 90 then char_of (n + 32) else c)"

text \<open>\<open>s.split(sep)[0]\<close> for a one-character separator: the part before its first occurrence.\<close>

definition split_first :: "char \<Rightarrow> string \<Rightarrow> string" where
  "split_first sep s = takeWhile (\<lambda>c. c \<noteq> sep) s"

text \<open>\<open>p.substring(0, p.lastIndexOf("/") + 1)\<close>: the part up to and including the last slash,
  empty when there is none.\<close>

definition upto_last_slash :: "string \<Rightarrow> string" where
  "upto_last_slash p = rev (dropWhile (\<lambda>c. c \<noteq> CHR ''/'') (rev p))"

text \<open>White space, for \<open>trim\<close> and \<open>/\s+/\<close>: the six ASCII characters. The platform also
  takes the Unicode spaces (U+00A0, U+FEFF and others), which a string of bytes holds as
  several characters and which are not white space here; this bears on \<open>title\<close>, \<open>h1\<close> and
  \<open>wordCount\<close> only.\<close>

definition is_space :: "char \<Rightarrow> bool" where
  "is_space c = (c = CHR '' '' \<or> c = CHR 0x09 \<or> c = CHR 0x0A \<or> c = CHR 0x0B
     \<or> c = CHR 0x0C \<or> c = CHR 0x0D)"

definition trim :: "string \<Rightarrow> string" where
  "trim s = rev (dropWhile is_space (rev (dropWhile is_space s)))"

text \<open>\<open>s.split(/\s+/).filter(Boolean).length\<close>: the number of maximal runs of characters
  that are not white space. The flag says whether the previous character was in a run.\<close>

fun count_tokens :: "bool \<Rightarrow> string \<Rightarrow> nat" where
  "count_tokens inside [] = 0"
| "count_tokens inside (c # cs) =
     (if is_space c then count_tokens False cs
      else (if inside then 0 else 1) + count_tokens True cs)"

subsection \<open>Sets of strings\<close>

text \<open>A JavaScript \<open>Set\<close> keeps its members in insertion order, each once: a list to which
  \<open>add\<close> appends a member only when it is absent. \<open>has\<close> is membership, \<open>size\<close> the
  length.\<close>

definition set_add :: "string \<Rightarrow> string list \<Rightarrow> string list" where
  "set_add x xs = (if x \<in> set xs then xs else xs @ [x])"

subsection \<open>Data\<close>

record SeoData =
  url :: string
  statusCode :: nat
  title :: string
  metaDescription :: string
  canonical :: string
  h1 :: string
  h2Count :: nat
  imgCount :: nat
  imgWithAlt :: nat
  wordCount :: nat

definition MAX_URLS :: nat where
  "MAX_URLS = 500"

text \<open>The fields of a parsed URL that the code reads.\<close>

record URL =
  protocol :: string
  host :: string
  pathname :: string

text \<open>An element of a parsed document: its tag, its attributes, and its text content
  (that of its descendants included).\<close>

record element =
  tag :: string
  attrs :: "(string \<times> string) list"
  inner_text :: string

type_synonym document = "element list"

text \<open>An HTTP response: \<open>content_type\<close> is \<open>None\<close> when the header is absent, \<open>body\<close> is
  \<open>None\<close> when reading the text of the response throws.\<close>

record response =
  status :: nat
  content_type :: "string option"
  body :: "document option"

datatype fetch_result = Rejected | Response response

record env =
  parseURL :: "string \<Rightarrow> URL option"
  web :: "nat \<Rightarrow> string \<Rightarrow> fetch_result"

datatype event = Progress nat | Result SeoData

subsection \<open>The network\<close>

text \<open>\<open>fetch(u)\<close>: the promise is rejected when \<open>u\<close> is not a valid URL, or when the
  transport fails. The second component is the log of the URLs \<open>fetch\<close> was called
  with, which also numbers the calls.\<close>

definition fetch :: "env \<Rightarrow> string list \<Rightarrow> string \<Rightarrow> fetch_result \<times> string list" where
  "fetch e net u =
     ((case parseURL e u of None \<Rightarrow> Rejected | Some _ \<Rightarrow> web e (length net) u), net @ [u])"

definition ok :: "response \<Rightarrow> bool" where
  "ok r = (200 \<le> status r \<and> status r \<le> 299)"

definition is_html :: "response \<Rightarrow> bool" where
  "is_html r = str_includes (case content_type r of None \<Rightarrow> [] | Some t \<Rightarrow> t) ''text/html''"

subsection \<open>The cheerio queries the code makes\<close>

definition by_tag :: "string \<Rightarrow> document \<Rightarrow> element list" where
  "by_tag t d = filter (\<lambda>x. tag x = t) d"

definition by_tag_attr :: "string \<Rightarrow> string \<Rightarrow> document \<Rightarrow> element list" where
  "by_tag_attr t a d = filter (\<lambda>x. tag x = t \<and> map_of (attrs x) a \<noteq> None) d"

definition by_tag_attr_eq :: "string \<Rightarrow> string \<Rightarrow> string \<Rightarrow> document \<Rightarrow> element list" where
  "by_tag_attr_eq t a v d = filter (\<lambda>x. tag x = t \<and> map_of (attrs x) a = Some v) d"

text \<open>The value of \<open>rel\<close> is one of those a selector compares without regard to case.\<close>

definition by_tag_attr_eq_nocase :: "string \<Rightarrow> string \<Rightarrow> string \<Rightarrow> document \<Rightarrow> element list" where
  "by_tag_attr_eq_nocase t a v d =
     filter (\<lambda>x. tag x = t \<and> (case map_of (attrs x) a of None \<Rightarrow> False
                                 | Some w \<Rightarrow> map lower w = map lower v)) d"

text \<open>\<open>sel.attr(a) || ""\<close>: the attribute of the first selected element, empty when there is
  no element or no such attribute.\<close>

definition attr_or_empty :: "string \<Rightarrow> element list \<Rightarrow> string" where
  "attr_or_empty a sel =
     (case sel of [] \<Rightarrow> [] | x # _ \<Rightarrow> (case map_of (attrs x) a of None \<Rightarrow> [] | Some v \<Rightarrow> v))"

definition text_of :: "element list \<Rightarrow> string" where
  "text_of sel = concat (map inner_text sel)"

subsection \<open>analyzePage\<close>

definition default_data :: "string \<Rightarrow> nat \<Rightarrow> SeoData" where
  "default_data u sc =
     \<lparr>url = u, statusCode = sc, title = [], metaDescription = [], canonical = [], h1 = [],
      h2Count = 0, imgCount = 0, imgWithAlt = 0, wordCount = 0\<rparr>"

definition extract_seo :: "SeoData \<Rightarrow> document \<Rightarrow> SeoData" where
  "extract_seo data d =
     data\<lparr>title := trim (text_of (by_tag ''title'' d)),
          metaDescription := attr_or_empty ''content'' (by_tag_attr_eq ''meta'' ''name'' ''description'' d),
          canonical := attr_or_empty ''href'' (by_tag_attr_eq_nocase ''link'' ''rel'' ''canonical'' d),
          h1 := trim (text_of (take 1 (by_tag ''h1'' d))),
          h2Count := length (by_tag ''h2'' d),
          imgCount := length (by_tag ''img'' d),
          imgWithAlt := length (by_tag_attr ''img'' ''alt'' d),
          wordCount := count_tokens False (trim (text_of (by_tag ''body'' d)))\<rparr>"

text \<open>The \<open>catch\<close> of \<open>analyzePage\<close> turns a rejected fetch and an unreadable body into the
  record with status code 0.\<close>

definition analyzePage :: "env \<Rightarrow> string list \<Rightarrow> string \<Rightarrow> string \<Rightarrow> SeoData \<times> string list" where
  "analyzePage e net u baseUrl =
     (case fetch e net u of
        (Rejected, net') \<Rightarrow> (default_data u 0, net')
      | (Response r, net') \<Rightarrow>
          (if \<not> ok r then default_data u (status r)
           else if \<not> is_html r then default_data u (status r)
           else (case body r of
                   None \<Rightarrow> default_data u 0
                 | Some d \<Rightarrow> extract_seo (default_data u (status r)) d),
           net'))"

subsection \<open>extractUrls\<close>

text \<open>The URL a \<open>href\<close> stands for, before the host is checked. \<open>None\<close> is the \<open>return\<close>
  of the last branch, or an exception of \<open>new URL\<close>, which the \<open>catch\<close> of the callback
  swallows.\<close>

definition resolve_href :: "env \<Rightarrow> string \<Rightarrow> string \<Rightarrow> string \<Rightarrow> string option" where
  "resolve_href e u baseUrl href =
     (if startsWith href ''http'' then Some href
      else if startsWith href ''/'' then
        (case parseURL e baseUrl of
           None \<Rightarrow> None
         | Some urlObj \<Rightarrow> Some (protocol urlObj @ ''//'' @ host urlObj @ href))
      else if \<not> startsWith href ''#'' \<and> \<not> startsWith href ''javascript:''
              \<and> \<not> startsWith href ''mailto:'' then
        (case parseURL e u of
           None \<Rightarrow> None
         | Some urlObj \<Rightarrow>
             (let path = (if endsWith (pathname urlObj) ''/'' then pathname urlObj
                          else upto_last_slash (pathname urlObj))
              in Some (protocol urlObj @ ''//'' @ host urlObj @ path @ href)))
      else None)"

text \<open>What is done to a same-host URL before it is added to the links: hash and query
  removed, then one trailing slash, unless the URL is \<open>baseUrl\<close>.\<close>

definition strip_url :: "string \<Rightarrow> string \<Rightarrow> string" where
  "strip_url baseUrl fullUrl =
     (let s = split_first (CHR ''?'') (split_first (CHR ''#'') fullUrl)
      in if endsWith s ''/'' \<and> s \<noteq> baseUrl then butlast s else s)"

text \<open>The body of the callback of \<open>each\<close>, for one \<open>href\<close>: the link to add, if any.\<close>

definition normalize_href :: "env \<Rightarrow> string \<Rightarrow> string \<Rightarrow> string \<Rightarrow> string option" where
  "normalize_href e u baseUrl href =
     (if href = [] then None
      else case resolve_href e u baseUrl href of
        None \<Rightarrow> None
      | Some fullUrl \<Rightarrow>
          (case parseURL e fullUrl of
             None \<Rightarrow> None
           | Some urlObj \<Rightarrow>
               (case parseURL e baseUrl of
                  None \<Rightarrow> None
                | Some baseUrlObj \<Rightarrow>
                    if host urlObj = host baseUrlObj then Some (strip_url baseUrl fullUrl)
                    else None)))"

definition hrefs_of :: "document \<Rightarrow> string list" where
  "hrefs_of d = map (attr_or_empty ''href'' \<circ> (\<lambda>x. [x])) (by_tag_attr ''a'' ''href'' d)"

fun collect_links :: "env \<Rightarrow> string \<Rightarrow> string \<Rightarrow> string list \<Rightarrow> string list \<Rightarrow> string list" where
  "collect_links e u baseUrl links [] = links"
| "collect_links e u baseUrl links (href # hrefs) =
     collect_links e u baseUrl
       (case normalize_href e u baseUrl href of None \<Rightarrow> links | Some l \<Rightarrow> set_add l links)
       hrefs"

definition extractUrls :: "env \<Rightarrow> string list \<Rightarrow> string \<Rightarrow> string \<Rightarrow> string list \<times> string list" where
  "extractUrls e net u baseUrl =
     (case fetch e net u of
        (Rejected, net') \<Rightarrow> ([], net')
      | (Response r, net') \<Rightarrow>
          (if \<not> ok r then []
           else if \<not> is_html r then []
           else (case body r of
                   None \<Rightarrow> []
                 | Some d \<Rightarrow> collect_links e u baseUrl [] (hrefs_of d)),
           net'))"

subsection \<open>analyzeWebsite\<close>

record crawl =
  queue :: "string list"
  visited :: "string list"
  results :: "SeoData list"
  written :: "event list"
  requests :: "string list"

definition initial :: "string \<Rightarrow> crawl" where
  "initial baseUrl = \<lparr>queue = [baseUrl], visited = [], results = [], written = [], requests = []\<rparr>"

text \<open>\<open>Math.round((n / MAX_URLS) * 100)\<close>. The quotient is a multiple of one fifth, never
  half-way between two integers, so the rounding of the floating-point product is the
  rounding of the exact one: the floor of the value plus one half.\<close>

definition progress_value :: "nat \<Rightarrow> nat" where
  "progress_value n = (2 * (n * 100) + MAX_URLS) div (2 * MAX_URLS)"

text \<open>One turn of the \<open>for\<close> loop over the new URLs.\<close>

definition enqueue :: "string list \<Rightarrow> string list \<Rightarrow> string \<Rightarrow> string list" where
  "enqueue vis q newUrl =
     (if newUrl \<notin> set vis \<and> newUrl \<notin> set q \<and> length q + length vis < MAX_URLS
      then q @ [newUrl] else q)"

definition enqueue_all :: "string list \<Rightarrow> string list \<Rightarrow> string list \<Rightarrow> string list" where
  "enqueue_all vis q newUrls = foldl (enqueue vis) q newUrls"

definition loop_cond :: "crawl \<Rightarrow> bool" where
  "loop_cond s = (queue s \<noteq> [] \<and> length (visited s) < MAX_URLS)"

text \<open>The body of the \<open>while\<close> loop, entered with a queue that is not empty.\<close>

definition loop_body :: "env \<Rightarrow> string \<Rightarrow> crawl \<Rightarrow> crawl" where
  "loop_body e baseUrl s =
     (case queue s of
        [] \<Rightarrow> s
      | u # q \<Rightarrow>
          if u \<in> set (visited s) then s\<lparr>queue := q\<rparr>
          else
            (let vis = set_add u (visited s);
                 w1 = written s @ [Progress (progress_value (length vis))];
                 (data, net1) = analyzePage e (requests s) u baseUrl;
                 w2 = w1 @ [Result data];
                 (newUrls, net2) =
                    (if statusCode data = 200 then extractUrls e net1 u baseUrl else ([], net1))
             in \<lparr>queue = enqueue_all vis q newUrls, visited = vis,
                 results = results s @ [data], written = w2, requests = net2\<rparr>))"

text \<open>The state after at most \<open>n\<close> turns of the \<open>while\<close> loop.\<close>

fun loop_iter :: "env \<Rightarrow> string \<Rightarrow> nat \<Rightarrow> crawl \<Rightarrow> crawl" where
  "loop_iter e baseUrl 0 s = s"
| "loop_iter e baseUrl (Suc n) s =
     (if loop_cond s then loop_iter e baseUrl n (loop_body e baseUrl s) else s)"

text \<open>The \<open>while\<close> loop, run to its exit. It ends: a turn either adds a URL to the visited
  set, which holds fewer than \<open>MAX_URLS\<close>, or leaves the set as it is and shortens the
  queue.\<close>

function crawl_loop :: "env \<Rightarrow> string \<Rightarrow> crawl \<Rightarrow> crawl" where
  "crawl_loop e baseUrl s =
     (if loop_cond s then crawl_loop e baseUrl (loop_body e baseUrl s) else s)"
  by pat_completeness auto
termination
proof (relation "inv_image (measures [\<lambda>s. MAX_URLS - length (visited s), \<lambda>s. length (queue s)])
                   (\<lambda>(e, baseUrl, s). s)")
  show "wf (inv_image (measures [\<lambda>s. MAX_URLS - length (visited s), \<lambda>s. length (queue s)])
              (\<lambda>(e, baseUrl, s). s))"
    by simp
next
  fix e :: env and baseUrl :: string and s :: crawl
  assume c: "loop_cond s"
  have "(loop_body e baseUrl s, s)
          \<in> measures [\<lambda>s. MAX_URLS - length (visited s), \<lambda>s. length (queue s)]"
  proof (cases "queue s")
    case Nil
    with c show ?thesis by (simp add: loop_cond_def)
  next
    case (Cons u q)
    show ?thesis
    proof (cases "u \<in> set (visited s)")
      case True
      with Cons show ?thesis by (simp add: loop_body_def)
    next
      case False
      have "length (visited (loop_body e baseUrl s)) = Suc (length (visited s))"
        using Cons False by (simp add: loop_body_def Let_def set_add_def split: prod.splits)
      moreover have "length (visited s) < MAX_URLS"
        using c by (simp add: loop_cond_def)
      ultimately have "MAX_URLS - length (visited (loop_body e baseUrl s))
                         < MAX_URLS - length (visited s)"
        by arith
      then show ?thesis by simp
    qed
  qed
  then show "((e, baseUrl, loop_body e baseUrl s), (e, baseUrl, s))
      \<in> inv_image (measures [\<lambda>s. MAX_URLS - length (visited s), \<lambda>s. length (queue s)])
          (\<lambda>(e, baseUrl, s). s)"
    by simp
qed

declare crawl_loop.simps [simp del]

text \<open>The response stream: the events written and whether the writer was closed.\<close>

record stream =
  events :: "event list"
  closed :: bool

definition analyzeWebsite :: "env \<Rightarrow> string \<Rightarrow> stream" where
  "analyzeWebsite e baseUrl =
     (let s = crawl_loop e baseUrl (initial baseUrl)
      in \<lparr>events = written s @ [Progress 100], closed = True\<rparr>)"



subsection \<open>Two properties of a URL parser\<close>

text \<open>The URL parser is a parameter, and what a second normalization of a link gives
  depends on it. Two properties of the platform's parser are named here, to be assumed
  where they are needed. The first: the protocol of a URL that starts with \<open>http\<close> starts
  with \<open>http\<close>, the protocol being the scheme, in lower case, with its colon. The second:
  a URL that parses still parses, to the same host, when its hash and query and then a
  trailing slash are taken away as \<open>strip_url\<close> does, the host coming before all of them.\<close>

definition keeps_scheme :: "env \<Rightarrow> bool" where
  "keeps_scheme e =
     (\<forall>s urlObj. startsWith s ''http'' \<and> parseURL e s = Some urlObj
        \<longrightarrow> startsWith (protocol urlObj) ''http'')"

definition keeps_host :: "env \<Rightarrow> string \<Rightarrow> bool" where
  "keeps_host e baseUrl =
     (\<forall>fullUrl urlObj. parseURL e fullUrl = Some urlObj
        \<longrightarrow> (\<exists>stripped. parseURL e (strip_url baseUrl fullUrl) = Some stripped
                         \<and> host stripped = host urlObj))"

subsection \<open>The invariant of the loop\<close>

text \<open>What holds of the state between two turns of the \<open>while\<close> loop: no URL is twice in
  \<open>visited\<close>, the records are those of the visited URLs in order, the queue holds no URL
  twice and none that is visited, queue and visited set together stay within the
  budget, and two events were written for each visited URL.\<close>

definition crawl_inv :: "crawl \<Rightarrow> bool" where
  "crawl_inv s =
     (distinct (visited s) \<and> map url (results s) = visited s \<and> distinct (queue s)
      \<and> set (queue s) \<inter> set (visited s) = {}
      \<and> length (queue s) + length (visited s) \<le> MAX_URLS
      \<and> length (written s) = 2 * length (visited s))"

subsection \<open>A parser for plain URLs and a small site, for the concrete cases\<close>

text \<open>The concrete cases below need a parser and a network. \<open>plain_url\<close> reads
  \<open>http://host/path?query#hash\<close> and \<open>https://...\<close> with a host of letters, digits, dots
  and hyphens, which it puts in lower case as the platform's parser does; an empty path
  is \<open>/\<close>. Any other string it refuses, so that, unlike the platform's parser, it refuses
  a port, user information and a scheme in upper case; and it keeps the dot segments
  of a path. The concrete cases use it at URLs with none of these, where it agrees with
  the platform's parser, and at \<open>https://not a host\<close>, which the platform's parser refuses
  too, a space not being allowed in a host.\<close>

definition host_char :: "char \<Rightarrow> bool" where
  "host_char c = (let n = (of_char c :: nat) in
     (97 \<le> n \<and> n \<le> 122) \<or> (48 \<le> n \<and> n \<le> 57) \<or> n = 45 \<or> n = 46)"

definition after_scheme :: "string \<Rightarrow> string \<Rightarrow> URL option" where
  "after_scheme proto rest =
     (let h = map lower (takeWhile (\<lambda>c. c \<noteq> CHR ''/'' \<and> c \<noteq> CHR ''?'' \<and> c \<noteq> CHR ''#'') rest);
          t = dropWhile (\<lambda>c. c \<noteq> CHR ''/'' \<and> c \<noteq> CHR ''?'' \<and> c \<noteq> CHR ''#'') rest;
          p = takeWhile (\<lambda>c. c \<noteq> CHR ''?'' \<and> c \<noteq> CHR ''#'') t
      in if h = [] \<or> filter host_char h \<noteq> h then None
         else Some \<lparr>protocol = proto, host = h, pathname = (if p = [] then ''/'' else p)\<rparr>)"

definition plain_url :: "string \<Rightarrow> URL option" where
  "plain_url s =
     (if startsWith s ''https://'' then after_scheme ''https:'' (drop 8 s)
      else if startsWith s ''http://'' then after_scheme ''http:'' (drop 7 s)
      else None)"

definition anchor :: "string \<Rightarrow> element" where
  "anchor h = \<lparr>tag = ''a'', attrs = [(''href'', h)], inner_text = ''link''\<rparr>"

definition html_page :: "nat \<Rightarrow> document \<Rightarrow> fetch_result" where
  "html_page sc d =
     Response \<lparr>status = sc, content_type = Some ''text/html; charset=utf-8'', body = Some d\<rparr>"

text \<open>A site whose home page answers with the status \<open>sc\<close> and links to a page, to a
  picture, to another host and to a place in itself; one more page has a body that cannot
  be read; every other URL fails to connect.\<close>

definition example_site :: "nat \<Rightarrow> nat \<Rightarrow> string \<Rightarrow> fetch_result" where
  "example_site sc k u =
     (if u = ''https://example.com'' then
        html_page sc [\<lparr>tag = ''title'', attrs = [], inner_text = '' Home ''\<rparr>,
                      \<lparr>tag = ''img'', attrs = [(''src'', ''logo.png''), (''alt'', [])], inner_text = []\<rparr>,
                      \<lparr>tag = ''img'', attrs = [(''src'', ''x.png'')], inner_text = []\<rparr>,
                      anchor ''https://EXAMPLE.com/b/?q=1#top'', anchor ''logo.png'',
                      anchor ''https://other.org/c'', anchor ''#top'']
      else if u = ''https://EXAMPLE.com/b'' then html_page 200 [anchor ''/'', anchor ''/b'']
      else if u = ''https://example.com/logo.png'' then
        Response \<lparr>status = 200, content_type = Some ''image/png'', body = None\<rparr>
      else if u = ''https://example.com/broken'' then
        Response \<lparr>status = 200, content_type = Some ''text/html'', body = None\<rparr>
      else Rejected)"

definition example_env :: "nat \<Rightarrow> env" where
  "example_env sc = \<lparr>parseURL = plain_url, web = example_site sc\<rparr>"

section \<open>Facts about the model\<close>

lemma fetch_log: "snd (fetch e net u) = net @ [u]"
  by (simp add: fetch_def)

lemma analyzePage_log: "snd (analyzePage e net u baseUrl) = net @ [u]"
  by (simp add: analyzePage_def fetch_def split: fetch_result.splits)

lemma extractUrls_log: "snd (extractUrls e net u baseUrl) = net @ [u]"
  by (simp add: extractUrls_def fetch_def split: fetch_result.splits)

lemma analyzePage_url: "url (fst (analyzePage e net u baseUrl)) = u"
  by (simp add: analyzePage_def fetch_def default_data_def extract_seo_def
      split: fetch_result.splits option.splits)

lemma loop_body_skip:
  "queue s = u # q \<Longrightarrow> u \<in> set (visited s) \<Longrightarrow> loop_body e baseUrl s = s\<lparr>queue := q\<rparr>"
  by (simp add: loop_body_def)

lemma loop_body_visit:
  assumes "queue s = u # q" and "u \<notin> set (visited s)"
  shows "loop_body e baseUrl s =
     \<lparr>queue = enqueue_all (visited s @ [u]) q
         (if statusCode (fst (analyzePage e (requests s) u baseUrl)) = 200
          then fst (extractUrls e (requests s @ [u]) u baseUrl) else []),
      visited = visited s @ [u],
      results = results s @ [fst (analyzePage e (requests s) u baseUrl)],
      written = written s @ [Progress (progress_value (Suc (length (visited s)))),
                             Result (fst (analyzePage e (requests s) u baseUrl))],
      requests = (if statusCode (fst (analyzePage e (requests s) u baseUrl)) = 200
                  then requests s @ [u, u] else requests s @ [u])\<rparr>"
proof -
  obtain data net1 where a: "analyzePage e (requests s) u baseUrl = (data, net1)"
    by (cases "analyzePage e (requests s) u baseUrl")
  have n1: "net1 = requests s @ [u]"
    using analyzePage_log [of e "requests s" u baseUrl] a by simp
  obtain ls net2 where x: "extractUrls e net1 u baseUrl = (ls, net2)"
    by (cases "extractUrls e net1 u baseUrl")
  have n2: "net2 = requests s @ [u, u]"
    using extractUrls_log [of e net1 u baseUrl] x n1 by simp
  show ?thesis
    using assms a x n1 n2 by (simp add: loop_body_def set_add_def Let_def)
qed

lemma enqueue_keeps:
  assumes "distinct q" and "set q \<inter> set vis = {}" and "length q + length vis \<le> MAX_URLS"
  shows "distinct (enqueue vis q l) \<and> set (enqueue vis q l) \<inter> set vis = {}
         \<and> length (enqueue vis q l) + length vis \<le> MAX_URLS
         \<and> set (enqueue vis q l) \<subseteq> set q \<union> {l}"
  using assms by (auto simp: enqueue_def)

lemma enqueue_all_keeps:
  assumes "distinct q" and "set q \<inter> set vis = {}" and "length q + length vis \<le> MAX_URLS"
  shows "distinct (enqueue_all vis q ls) \<and> set (enqueue_all vis q ls) \<inter> set vis = {}
         \<and> length (enqueue_all vis q ls) + length vis \<le> MAX_URLS
         \<and> set (enqueue_all vis q ls) \<subseteq> set q \<union> set ls"
  using assms
proof (induction ls arbitrary: q)
  case Nil
  then show ?case by (simp add: enqueue_all_def)
next
  case (Cons l ls)
  have k: "distinct (enqueue vis q l) \<and> set (enqueue vis q l) \<inter> set vis = {}
         \<and> length (enqueue vis q l) + length vis \<le> MAX_URLS
         \<and> set (enqueue vis q l) \<subseteq> set q \<union> {l}"
    using enqueue_keeps Cons.prems by blast
  then have "distinct (enqueue_all vis (enqueue vis q l) ls)
         \<and> set (enqueue_all vis (enqueue vis q l) ls) \<inter> set vis = {}
         \<and> length (enqueue_all vis (enqueue vis q l) ls) + length vis \<le> MAX_URLS
         \<and> set (enqueue_all vis (enqueue vis q l) ls) \<subseteq> set (enqueue vis q l) \<union> set ls"
    using Cons.IH by blast
  moreover have "enqueue_all vis q (l # ls) = enqueue_all vis (enqueue vis q l) ls"
    by (simp add: enqueue_all_def)
  ultimately show ?case using k by auto
qed

lemma crawl_inv_initial: "crawl_inv (initial baseUrl)"
  by (simp add: crawl_inv_def initial_def MAX_URLS_def)

lemma crawl_inv_loop_body:
  assumes "crawl_inv s"
  shows "crawl_inv (loop_body e baseUrl s)"
proof (cases "queue s")
  case Nil
  then show ?thesis using assms by (simp add: loop_body_def)
next
  case (Cons u q)
  show ?thesis
  proof (cases "u \<in> set (visited s)")
    case True
    then show ?thesis
      using assms Cons by (auto simp: loop_body_skip crawl_inv_def)
  next
    case False
    let ?vis = "visited s @ [u]"
    let ?ls = "if statusCode (fst (analyzePage e (requests s) u baseUrl)) = 200
          then fst (extractUrls e (requests s @ [u]) u baseUrl) else []"
    have q: "distinct q" "set q \<inter> set ?vis = {}" "length q + length ?vis \<le> MAX_URLS"
      using assms Cons by (auto simp: crawl_inv_def)
    have e: "distinct (enqueue_all ?vis q ?ls) \<and> set (enqueue_all ?vis q ?ls) \<inter> set ?vis = {}
         \<and> length (enqueue_all ?vis q ?ls) + length ?vis \<le> MAX_URLS"
      using enqueue_all_keeps [OF q] by blast
    have v: "distinct ?vis" "map url (results s) = visited s"
      "length (written s) = 2 * length (visited s)"
      using assms False by (auto simp: crawl_inv_def)
    show ?thesis
      unfolding loop_body_visit [OF Cons False] crawl_inv_def
      using e v by (simp add: analyzePage_url)
  qed
qed

lemma crawl_inv_loop_iter: "crawl_inv s \<Longrightarrow> crawl_inv (loop_iter e baseUrl n s)"
  by (induction n arbitrary: s) (simp_all add: crawl_inv_loop_body)

lemma crawl_loop_is_iter:
  "\<exists>n. crawl_loop e baseUrl s = loop_iter e baseUrl n s \<and> \<not> loop_cond (loop_iter e baseUrl n s)"
proof (induction e baseUrl s rule: crawl_loop.induct)
  case (1 e baseUrl s)
  show ?case
  proof (cases "loop_cond s")
    case True
    then obtain n where "crawl_loop e baseUrl (loop_body e baseUrl s) = loop_iter e baseUrl n (loop_body e baseUrl s)
        \<and> \<not> loop_cond (loop_iter e baseUrl n (loop_body e baseUrl s))"
      using "1.IH" by blast
    then have "crawl_loop e baseUrl s = loop_iter e baseUrl (Suc n) s \<and> \<not> loop_cond (loop_iter e baseUrl (Suc n) s)"
      using True by (simp add: crawl_loop.simps [of e baseUrl s])
    then show ?thesis by blast
  next
    case False
    then have "crawl_loop e baseUrl s = loop_iter e baseUrl 0 s \<and> \<not> loop_cond (loop_iter e baseUrl 0 s)"
      by (simp add: crawl_loop.simps [of e baseUrl s])
    then show ?thesis by blast
  qed
qed

lemma loop_iter_exit:
  "\<not> loop_cond (loop_iter e baseUrl n s) \<Longrightarrow> crawl_loop e baseUrl s = loop_iter e baseUrl n s"
proof (induction n arbitrary: s)
  case 0
  then show ?case by (simp add: crawl_loop.simps [of e baseUrl s])
next
  case (Suc n)
  then show ?case by (cases "loop_cond s") (simp_all add: crawl_loop.simps [of e baseUrl s])
qed

lemma crawl_inv_crawl_loop: "crawl_inv s \<Longrightarrow> crawl_inv (crawl_loop e baseUrl s)"
  using crawl_loop_is_iter [of e baseUrl s] crawl_inv_loop_iter [of s e baseUrl] by auto

lemma by_tag_attr_filter: "by_tag_attr t a d = filter (\<lambda>x. map_of (attrs x) a \<noteq> None) (by_tag t d)"
  by (simp add: by_tag_attr_def by_tag_def conj_commute)

lemma normalize_href_Some:
  assumes "normalize_href e u baseUrl href = Some l"
  shows "\<exists>fullUrl urlObj baseUrlObj.
           resolve_href e u baseUrl href = Some fullUrl \<and> parseURL e fullUrl = Some urlObj
           \<and> parseURL e baseUrl = Some baseUrlObj \<and> host urlObj = host baseUrlObj
           \<and> l = strip_url baseUrl fullUrl"
  using assms by (auto simp: normalize_href_def split: if_splits option.splits)

lemma collect_links_from:
  "l \<in> set (collect_links e u baseUrl links hrefs) \<Longrightarrow>
     l \<in> set links \<or> (\<exists>href. href \<in> set hrefs \<and> normalize_href e u baseUrl href = Some l)"
proof (induction hrefs arbitrary: links)
  case Nil
  then show ?case by simp
next
  case (Cons h hs)
  show ?case
  proof (cases "normalize_href e u baseUrl h")
    case None
    then show ?thesis using Cons.IH [of links] Cons.prems by auto
  next
    case (Some m)
    then have "l \<in> set (set_add m links) \<or> (\<exists>href. href \<in> set hs \<and> normalize_href e u baseUrl href = Some l)"
      using Cons.IH [of "set_add m links"] Cons.prems by simp
    then show ?thesis using Some by (auto simp: set_add_def split: if_splits)
  qed
qed

lemma extractUrls_from:
  "l \<in> set (fst (extractUrls e net u baseUrl)) \<Longrightarrow> \<exists>href. normalize_href e u baseUrl href = Some l"
  using collect_links_from [of l e u baseUrl "[]"]
  by (auto simp: extractUrls_def fetch_def split: fetch_result.splits option.splits if_splits)

lemma enqueue_all_subset: "set (enqueue_all vis q ls) \<subseteq> set q \<union> set ls"
proof (induction ls arbitrary: q)
  case Nil
  then show ?case by (simp add: enqueue_all_def)
next
  case (Cons l ls)
  have "set (enqueue_all vis (enqueue vis q l) ls) \<subseteq> set (enqueue vis q l) \<union> set ls"
    using Cons.IH .
  moreover have "set (enqueue vis q l) \<subseteq> set q \<union> {l}"
    by (auto simp: enqueue_def)
  moreover have "enqueue_all vis q (l # ls) = enqueue_all vis (enqueue vis q l) ls"
    by (simp add: enqueue_all_def)
  ultimately show ?case by auto
qed

lemma loop_body_urls:
  assumes "l \<in> set (queue (loop_body e baseUrl s)) \<union> set (visited (loop_body e baseUrl s))"
  shows "l \<in> set (queue s) \<union> set (visited s) \<or> (\<exists>u href. normalize_href e u baseUrl href = Some l)"
proof (cases "queue s")
  case Nil
  then show ?thesis using assms by (simp add: loop_body_def)
next
  case (Cons u q)
  show ?thesis
  proof (cases "u \<in> set (visited s)")
    case True
    then show ?thesis using assms Cons by (auto simp: loop_body_skip)
  next
    case False
    let ?ls = "if statusCode (fst (analyzePage e (requests s) u baseUrl)) = 200
          then fst (extractUrls e (requests s @ [u]) u baseUrl) else []"
    have "l \<in> set (enqueue_all (visited s @ [u]) q ?ls) \<union> set (visited s @ [u])"
      using assms by (simp add: loop_body_visit [OF Cons False])
    moreover have "set (enqueue_all (visited s @ [u]) q ?ls) \<subseteq> set q \<union> set ?ls"
      by (rule enqueue_all_subset)
    ultimately have "l \<in> set q \<union> set (visited s @ [u]) \<or> l \<in> set ?ls" by auto
    then show ?thesis
      using Cons extractUrls_from [of l e "requests s @ [u]" u baseUrl]
      by (auto split: if_splits)
  qed
qed

lemma loop_iter_urls:
  "l \<in> set (queue (loop_iter e baseUrl n s)) \<union> set (visited (loop_iter e baseUrl n s)) \<Longrightarrow>
     l \<in> set (queue s) \<union> set (visited s) \<or> (\<exists>u href. normalize_href e u baseUrl href = Some l)"
proof (induction n arbitrary: s)
  case 0
  then show ?case by simp
next
  case (Suc n)
  show ?case
  proof (cases "loop_cond s")
    case True
    then have "l \<in> set (queue (loop_body e baseUrl s)) \<union> set (visited (loop_body e baseUrl s))
        \<or> (\<exists>u href. normalize_href e u baseUrl href = Some l)"
      using Suc.IH [of "loop_body e baseUrl s"] Suc.prems by simp
    then show ?thesis using loop_body_urls [of l e baseUrl s] by blast
  next
    case False
    then show ?thesis using Suc.prems by simp
  qed
qed

lemma analyzePage_Rejected:
  "fst (fetch e net u) = Rejected \<Longrightarrow> fst (analyzePage e net u baseUrl) = default_data u 0"
  by (cases "fetch e net u") (simp add: analyzePage_def)


lemma analyzePage_status:
  "fst (fetch e net u) = Response r \<Longrightarrow>
     statusCode (fst (analyzePage e net u baseUrl))
       = (if ok r \<and> is_html r \<and> body r = None then 0 else status r)"
  by (cases "fetch e net u")
     (simp add: analyzePage_def default_data_def extract_seo_def split: option.splits)

lemma extractUrls_Rejected:
  "fst (fetch e net u) = Rejected \<Longrightarrow> fst (extractUrls e net u baseUrl) = []"
  by (cases "fetch e net u") (simp add: extractUrls_def)

lemma extractUrls_not_html:
  "fst (fetch e net u) = Response r \<Longrightarrow> \<not> (ok r \<and> is_html r) \<Longrightarrow>
     fst (extractUrls e net u baseUrl) = []"
  by (cases "fetch e net u") (auto simp: extractUrls_def)

lemma enqueue_all_Nil: "enqueue_all vis q [] = q"
  by (simp add: enqueue_all_def)

lemma loop_body_failed:
  assumes "queue s = u # q" and "u \<notin> set (visited s)"
    and "statusCode (fst (analyzePage e (requests s) u baseUrl)) \<noteq> 200"
  shows "loop_body e baseUrl s =
     \<lparr>queue = q, visited = visited s @ [u],
      results = results s @ [fst (analyzePage e (requests s) u baseUrl)],
      written = written s @ [Progress (progress_value (Suc (length (visited s)))),
                             Result (fst (analyzePage e (requests s) u baseUrl))],
      requests = requests s @ [u]\<rparr>"
  using assms(3) by (simp add: loop_body_visit [OF assms(1,2)] enqueue_all_Nil)


lemma requests_count_loop_body:
  assumes "length (requests s)
      = length (results s) + length (filter (\<lambda>x. statusCode x = 200) (results s))"
  shows "length (requests (loop_body e baseUrl s))
      = length (results (loop_body e baseUrl s))
        + length (filter (\<lambda>x. statusCode x = 200) (results (loop_body e baseUrl s)))"
proof (cases "queue s")
  case Nil
  then show ?thesis using assms by (simp add: loop_body_def)
next
  case (Cons u q)
  show ?thesis
  proof (cases "u \<in> set (visited s)")
    case True
    then show ?thesis using assms Cons by (simp add: loop_body_skip)
  next
    case False
    show ?thesis using assms by (simp add: loop_body_visit [OF Cons False])
  qed
qed

lemma requests_count_loop_iter:
  "length (requests s) = length (results s) + length (filter (\<lambda>x. statusCode x = 200) (results s))
   \<Longrightarrow> length (requests (loop_iter e baseUrl n s))
      = length (results (loop_iter e baseUrl n s))
        + length (filter (\<lambda>x. statusCode x = 200) (results (loop_iter e baseUrl n s)))"
  by (induction n arbitrary: s) (simp_all add: requests_count_loop_body)

lemma endsWith_slash: "endsWith s ''/'' = (s \<noteq> [] \<and> last s = CHR ''/'')"
proof (cases s rule: rev_cases)
  case Nil
  then show ?thesis by (simp add: endsWith_def)
next
  case (snoc ys y)
  then show ?thesis by (auto simp: endsWith_def)
qed

lemma split_first_absent: "c \<notin> set s \<Longrightarrow> split_first c s = s"
  by (auto simp: split_first_def takeWhile_eq_all_conv)

lemma split_first_free: "c \<notin> set (split_first c s)"
  by (auto simp: split_first_def dest: set_takeWhileD)

lemma split_first_subset: "set (split_first c s) \<subseteq> set s"
  by (auto simp: split_first_def dest: set_takeWhileD)

lemma strip_url_free:
  "CHR ''#'' \<notin> set (strip_url baseUrl fullUrl) \<and> CHR ''?'' \<notin> set (strip_url baseUrl fullUrl)"
proof -
  let ?s = "split_first (CHR ''?'') (split_first (CHR ''#'') fullUrl)"
  have "CHR ''?'' \<notin> set ?s" by (rule split_first_free)
  moreover have "CHR ''#'' \<notin> set ?s"
    using split_first_free [of "CHR ''#''" fullUrl] split_first_subset [of "CHR ''?''" "split_first (CHR ''#'') fullUrl"]
    by blast
  moreover have "set (strip_url baseUrl fullUrl) \<subseteq> set ?s"
    by (auto simp: strip_url_def Let_def dest: in_set_butlastD)
  ultimately show ?thesis by blast
qed

lemma startsWith_append: "startsWith s p \<Longrightarrow> \<exists>r. s = p @ r"
  by (induction s p rule: startsWith.induct) auto

lemma strip_url_keeps_http:
  assumes "startsWith fullUrl ''http''"
  shows "startsWith (strip_url baseUrl fullUrl) ''http''"
proof -
  obtain r where f: "fullUrl = ''http'' @ r"
    using assms startsWith_append by blast
  let ?t = "split_first (CHR ''?'') (split_first (CHR ''#'') r)"
  have s: "split_first (CHR ''?'') (split_first (CHR ''#'') fullUrl) = ''http'' @ ?t"
    using f by (simp add: split_first_def)
  show ?thesis
  proof (cases "endsWith (''http'' @ ?t) ''/'' \<and> ''http'' @ ?t \<noteq> baseUrl")
    case True
    then have "?t \<noteq> []" by (auto simp: endsWith_slash)
    then have "butlast (''http'' @ ?t) = ''http'' @ butlast ?t"
      by (simp add: butlast_append)
    then show ?thesis using True s by (simp add: strip_url_def)
  next
    case False
    then show ?thesis using s by (auto simp: strip_url_def)
  qed
qed

lemma startsWith_appendI: "startsWith s p \<Longrightarrow> startsWith (s @ t) p"
  by (induction s p rule: startsWith.induct) auto

lemma normalize_href_http:
  assumes "keeps_scheme e" and "startsWith baseUrl ''http''" and "startsWith u ''http''"
    and "normalize_href e u baseUrl href = Some l"
  shows "startsWith l ''http''"
proof -
  obtain fullUrl where r: "resolve_href e u baseUrl href = Some fullUrl"
    and l: "l = strip_url baseUrl fullUrl"
    using normalize_href_Some [OF assms(4)] by blast
  have p: "startsWith (protocol urlObj) ''http''"
    if "startsWith s ''http''" and "parseURL e s = Some urlObj" for s urlObj
    using assms(1) that unfolding keeps_scheme_def by blast
  have "startsWith fullUrl ''http''"
  proof (cases "startsWith href ''http''")
    case True
    then show ?thesis using r by (simp add: resolve_href_def)
  next
    case False
    note nh = False
    show ?thesis
    proof (cases "startsWith href ''/''")
      case True
      then obtain urlObj where b: "parseURL e baseUrl = Some urlObj"
        and f: "fullUrl = protocol urlObj @ ''//'' @ host urlObj @ href"
        using r nh by (auto simp: resolve_href_def split: option.splits)
      show ?thesis
        unfolding f using p [OF assms(2) b] by (rule startsWith_appendI)
    next
      case False
      then obtain urlObj path where b: "parseURL e u = Some urlObj"
        and f: "fullUrl = protocol urlObj @ ''//'' @ host urlObj @ path @ href"
        using r nh by (auto simp: resolve_href_def Let_def split: option.splits if_splits)
      show ?thesis
        unfolding f using p [OF assms(3) b] by (rule startsWith_appendI)
    qed
  qed
  then show ?thesis unfolding l by (rule strip_url_keeps_http)
qed

lemma loop_body_http:
  assumes "keeps_scheme e" and "startsWith baseUrl ''http''"
    and "\<And>x. x \<in> set (queue s) \<union> set (visited s) \<Longrightarrow> startsWith x ''http''"
    and "l \<in> set (queue (loop_body e baseUrl s)) \<union> set (visited (loop_body e baseUrl s))"
  shows "startsWith l ''http''"
proof (cases "queue s")
  case Nil
  then show ?thesis using assms(3,4) by (simp add: loop_body_def)
next
  case (Cons u q)
  have u: "startsWith u ''http''" using assms(3) Cons by simp
  show ?thesis
  proof (cases "u \<in> set (visited s)")
    case True
    then show ?thesis using assms(3,4) Cons by (auto simp: loop_body_skip)
  next
    case False
    let ?ls = "if statusCode (fst (analyzePage e (requests s) u baseUrl)) = 200
          then fst (extractUrls e (requests s @ [u]) u baseUrl) else []"
    have "l \<in> set (enqueue_all (visited s @ [u]) q ?ls) \<union> set (visited s @ [u])"
      using assms(4) by (simp add: loop_body_visit [OF Cons False])
    moreover have "set (enqueue_all (visited s @ [u]) q ?ls) \<subseteq> set q \<union> set ?ls"
      by (rule enqueue_all_subset)
    ultimately have "l \<in> set (queue s) \<union> set (visited s) \<or> l \<in> set ?ls"
      using Cons by auto
    then show ?thesis
    proof
      assume "l \<in> set (queue s) \<union> set (visited s)"
      then show ?thesis using assms(3) by blast
    next
      assume "l \<in> set ?ls"
      then have "l \<in> set (fst (extractUrls e (requests s @ [u]) u baseUrl))"
        by (auto split: if_splits)
      then obtain href where "normalize_href e u baseUrl href = Some l"
        using extractUrls_from by blast
      then show ?thesis using normalize_href_http [OF assms(1,2) u] by blast
    qed
  qed
qed

lemma loop_iter_http:
  assumes "keeps_scheme e" and "startsWith baseUrl ''http''"
  shows "(\<And>x. x \<in> set (queue s) \<union> set (visited s) \<Longrightarrow> startsWith x ''http'') \<Longrightarrow>
     l \<in> set (queue (loop_iter e baseUrl n s)) \<union> set (visited (loop_iter e baseUrl n s)) \<Longrightarrow>
     startsWith l ''http''"
proof (induction n arbitrary: s)
  case 0
  then show ?case by simp
next
  case (Suc n)
  show ?case
  proof (cases "loop_cond s")
    case True
    have "startsWith x ''http''"
      if "x \<in> set (queue (loop_body e baseUrl s)) \<union> set (visited (loop_body e baseUrl s))" for x
      using loop_body_http [OF assms, of s x] Suc.prems(1) that by blast
    then show ?thesis
      using Suc.IH [of "loop_body e baseUrl s"] Suc.prems(2) True by simp
  next
    case False
    then show ?thesis using Suc.prems by simp
  qed
qed

lemma normalize_href_again:
  assumes "keeps_scheme e" and "keeps_host e baseUrl"
    and "startsWith baseUrl ''http''" and "startsWith u ''http''"
    and "normalize_href e u baseUrl href = Some l"
  shows "normalize_href e u' baseUrl l
           = Some (if endsWith l ''/'' \<and> l \<noteq> baseUrl then butlast l else l)"
proof -
  obtain fullUrl urlObj baseUrlObj where f: "parseURL e fullUrl = Some urlObj"
    and b: "parseURL e baseUrl = Some baseUrlObj" and h: "host urlObj = host baseUrlObj"
    and l: "l = strip_url baseUrl fullUrl"
    using normalize_href_Some [OF assms(5)] by blast
  obtain stripped where s: "parseURL e l = Some stripped" and hs: "host stripped = host urlObj"
    using assms(2) f l unfolding keeps_host_def by blast
  have http: "startsWith l ''http''"
    using normalize_href_http [OF assms(1,3,4,5)] .
  then have n: "l \<noteq> []" by auto
  have r: "resolve_href e u' baseUrl l = Some l"
    using http by (simp add: resolve_href_def)
  have "CHR ''#'' \<notin> set l" "CHR ''?'' \<notin> set l"
    using l strip_url_free by simp_all
  then have st: "strip_url baseUrl l = (if endsWith l ''/'' \<and> l \<noteq> baseUrl then butlast l else l)"
    by (simp add: strip_url_def split_first_absent)
  show ?thesis
    using n r s b hs h st by (simp add: normalize_href_def)
qed

lemma takeWhile_host_split:
  "takeWhile (\<lambda>c. c \<noteq> CHR ''/'' \<and> c \<noteq> CHR ''?'' \<and> c \<noteq> CHR ''#'')
      (split_first (CHR ''?'') (split_first (CHR ''#'') rest))
   = takeWhile (\<lambda>c. c \<noteq> CHR ''/'' \<and> c \<noteq> CHR ''?'' \<and> c \<noteq> CHR ''#'') rest"
  by (induction rest) (auto simp: split_first_def)

lemma takeWhile_host_butlast:
  "xs \<noteq> [] \<Longrightarrow> last xs = CHR ''/'' \<Longrightarrow>
   takeWhile (\<lambda>c. c \<noteq> CHR ''/'' \<and> c \<noteq> CHR ''?'' \<and> c \<noteq> CHR ''#'') (butlast xs)
   = takeWhile (\<lambda>c. c \<noteq> CHR ''/'' \<and> c \<noteq> CHR ''?'' \<and> c \<noteq> CHR ''#'') xs"
  by (induction xs) auto

lemma strip_url_after_prefix:
  assumes "CHR ''#'' \<notin> set pre" and "CHR ''?'' \<notin> set pre"
    and "takeWhile (\<lambda>c. c \<noteq> CHR ''/'' \<and> c \<noteq> CHR ''?'' \<and> c \<noteq> CHR ''#'') rest \<noteq> []"
  shows "\<exists>r. strip_url baseUrl (pre @ rest) = pre @ r
             \<and> takeWhile (\<lambda>c. c \<noteq> CHR ''/'' \<and> c \<noteq> CHR ''?'' \<and> c \<noteq> CHR ''#'') r
               = takeWhile (\<lambda>c. c \<noteq> CHR ''/'' \<and> c \<noteq> CHR ''?'' \<and> c \<noteq> CHR ''#'') rest"
proof -
  let ?P = "\<lambda>c. c \<noteq> CHR ''/'' \<and> c \<noteq> CHR ''?'' \<and> c \<noteq> CHR ''#''"
  let ?r = "split_first (CHR ''?'') (split_first (CHR ''#'') rest)"
  have "split_first (CHR ''#'') (pre @ rest) = pre @ split_first (CHR ''#'') rest"
    unfolding split_first_def using assms(1) by (intro takeWhile_append2) auto
  moreover have "split_first (CHR ''?'') (pre @ split_first (CHR ''#'') rest) = pre @ ?r"
    unfolding split_first_def using assms(2) by (intro takeWhile_append2) auto
  ultimately have s: "split_first (CHR ''?'') (split_first (CHR ''#'') (pre @ rest)) = pre @ ?r"
    by simp
  have t: "takeWhile ?P ?r = takeWhile ?P rest"
    by (rule takeWhile_host_split)
  then have n: "?r \<noteq> []" using assms(3) by auto
  show ?thesis
  proof (cases "endsWith (pre @ ?r) ''/'' \<and> pre @ ?r \<noteq> baseUrl")
    case True
    then have "last ?r = CHR ''/''" using n by (simp add: endsWith_slash)
    then have "takeWhile ?P (butlast ?r) = takeWhile ?P rest"
      using takeWhile_host_butlast [OF n] t by simp
    moreover have "strip_url baseUrl (pre @ rest) = pre @ butlast ?r"
      using True s n by (simp add: strip_url_def butlast_append)
    ultimately show ?thesis by blast
  next
    case False
    then have "strip_url baseUrl (pre @ rest) = pre @ ?r"
      using s by (auto simp: strip_url_def)
    then show ?thesis using t by blast
  qed
qed

lemma after_scheme_host:
  assumes "after_scheme proto rest = Some urlObj"
    and "takeWhile (\<lambda>c. c \<noteq> CHR ''/'' \<and> c \<noteq> CHR ''?'' \<and> c \<noteq> CHR ''#'') r
         = takeWhile (\<lambda>c. c \<noteq> CHR ''/'' \<and> c \<noteq> CHR ''?'' \<and> c \<noteq> CHR ''#'') rest"
  shows "\<exists>stripped. after_scheme proto r = Some stripped \<and> host stripped = host urlObj"
  using assms by (auto simp: after_scheme_def Let_def split: if_splits)

lemma after_scheme_nonempty:
  "after_scheme proto rest = Some urlObj \<Longrightarrow>
   takeWhile (\<lambda>c. c \<noteq> CHR ''/'' \<and> c \<noteq> CHR ''?'' \<and> c \<noteq> CHR ''#'') rest \<noteq> []"
  by (auto simp: after_scheme_def Let_def split: if_splits)

lemma plain_url_strip:
  assumes "plain_url fullUrl = Some urlObj"
  shows "\<exists>stripped. plain_url (strip_url baseUrl fullUrl) = Some stripped
                    \<and> host stripped = host urlObj"
proof (cases "startsWith fullUrl ''https://''")
  case True
  then obtain rest where f: "fullUrl = ''https://'' @ rest"
    using startsWith_append by blast
  have a: "after_scheme ''https:'' rest = Some urlObj"
    using assms f by (simp add: plain_url_def)
  obtain r where s: "strip_url baseUrl (''https://'' @ rest) = ''https://'' @ r"
    and t: "takeWhile (\<lambda>c. c \<noteq> CHR ''/'' \<and> c \<noteq> CHR ''?'' \<and> c \<noteq> CHR ''#'') r
          = takeWhile (\<lambda>c. c \<noteq> CHR ''/'' \<and> c \<noteq> CHR ''?'' \<and> c \<noteq> CHR ''#'') rest"
    using strip_url_after_prefix [of "''https://''" rest baseUrl] after_scheme_nonempty [OF a]
    by auto
  have "plain_url (''https://'' @ r) = after_scheme ''https:'' r"
    by (simp add: plain_url_def)
  then show ?thesis using after_scheme_host [OF a t] s f by simp
next
  case False
  then have h: "startsWith fullUrl ''http://''"
    using assms by (auto simp: plain_url_def split: if_splits)
  then obtain rest where f: "fullUrl = ''http://'' @ rest"
    using startsWith_append by blast
  have a: "after_scheme ''http:'' rest = Some urlObj"
    using assms f False by (simp add: plain_url_def)
  obtain r where s: "strip_url baseUrl (''http://'' @ rest) = ''http://'' @ r"
    and t: "takeWhile (\<lambda>c. c \<noteq> CHR ''/'' \<and> c \<noteq> CHR ''?'' \<and> c \<noteq> CHR ''#'') r
          = takeWhile (\<lambda>c. c \<noteq> CHR ''/'' \<and> c \<noteq> CHR ''?'' \<and> c \<noteq> CHR ''#'') rest"
    using strip_url_after_prefix [of "''http://''" rest baseUrl] after_scheme_nonempty [OF a]
    by auto
  have "plain_url (''http://'' @ r) = after_scheme ''http:'' r"
    by (simp add: plain_url_def)
  then show ?thesis using after_scheme_host [OF a t] s f by simp
qed

lemma example_env_keeps_host: "keeps_host (example_env sc) baseUrl"
  by (simp add: keeps_host_def example_env_def plain_url_strip)

lemma example_env_keeps_scheme: "keeps_scheme (example_env sc)"
  by (auto simp: keeps_scheme_def example_env_def plain_url_def after_scheme_def Let_def
      split: if_splits)

section \<open>The claims\<close>

text \<open>
  C1. In every crawl, after any number of turns of the loop and at its exit, the visited
  set holds at most \<open>MAX_URLS = 500\<close> URLs; and a discovered URL is not enqueued when the
  lengths of the queue and of the visited set add up to \<open>MAX_URLS\<close> or more.
\<close>

theorem budget_never_exceeded:
  "MAX_URLS = 500
   \<and> length (visited (loop_iter e baseUrl n (initial baseUrl))) \<le> MAX_URLS
   \<and> length (visited (crawl_loop e baseUrl (initial baseUrl))) \<le> MAX_URLS
   \<and> (MAX_URLS \<le> length q + length vis \<longrightarrow> enqueue vis q newUrl = q)"
proof -
  have "crawl_inv (loop_iter e baseUrl n (initial baseUrl))"
    by (simp add: crawl_inv_loop_iter crawl_inv_initial)
  then have a: "length (visited (loop_iter e baseUrl n (initial baseUrl))) \<le> MAX_URLS"
    by (simp add: crawl_inv_def)
  have "crawl_inv (crawl_loop e baseUrl (initial baseUrl))"
    by (simp add: crawl_inv_crawl_loop crawl_inv_initial)
  then have b: "length (visited (crawl_loop e baseUrl (initial baseUrl))) \<le> MAX_URLS"
    by (simp add: crawl_inv_def)
  have c: "MAX_URLS \<le> length q + length vis \<longrightarrow> enqueue vis q newUrl = q"
    by (simp add: enqueue_def)
  show ?thesis using a b c by (simp add: MAX_URLS_def)
qed

theorem budget_never_exceeded_witness:
  "MAX_URLS \<le> length (replicate 499 ''https://example.com/p'') + length [''https://example.com'']
   \<and> enqueue [''https://example.com''] (replicate 499 ''https://example.com/p'') ''https://example.com/new''
       = replicate 499 ''https://example.com/p''
   \<and> length (visited (loop_iter (example_env 200) ''https://example.com'' 2 (initial ''https://example.com''))) \<le> MAX_URLS"
  using budget_never_exceeded [of "example_env 200" "''https://example.com''" 2
      "replicate 499 ''https://example.com/p''" "[''https://example.com'']" "''https://example.com/new''"]
  by (simp add: MAX_URLS_def)

text \<open>
  C2. In every crawl, no URL is twice in the visited set: a turn of the loop adds the URL
  it took from the queue only when the set does not hold it, and the queue never holds
  a visited URL, since a URL of the visited set is refused by \<open>enqueue\<close>. The records in
  \<open>results\<close> are those of the visited URLs, in order, so that no URL has two records,
  during the crawl and at its end.
\<close>

theorem no_url_visited_twice:
  "distinct (visited (loop_iter e baseUrl n (initial baseUrl)))
   \<and> map url (results (loop_iter e baseUrl n (initial baseUrl)))
       = visited (loop_iter e baseUrl n (initial baseUrl))
   \<and> set (queue (loop_iter e baseUrl n (initial baseUrl)))
       \<inter> set (visited (loop_iter e baseUrl n (initial baseUrl))) = {}
   \<and> distinct (map url (results (loop_iter e baseUrl n (initial baseUrl))))
   \<and> distinct (map url (results (crawl_loop e baseUrl (initial baseUrl))))
   \<and> (queue s = u # q \<longrightarrow>
        visited (loop_body e baseUrl s)
          = (if u \<in> set (visited s) then visited s else visited s @ [u]))
   \<and> (newUrl \<in> set vis \<longrightarrow> enqueue vis q' newUrl = q')"
proof -
  have i: "crawl_inv (loop_iter e baseUrl n (initial baseUrl))"
    by (simp add: crawl_inv_loop_iter crawl_inv_initial)
  have f: "crawl_inv (crawl_loop e baseUrl (initial baseUrl))"
    by (simp add: crawl_inv_crawl_loop crawl_inv_initial)
  have a: "distinct (visited (loop_iter e baseUrl n (initial baseUrl)))"
    and b: "map url (results (loop_iter e baseUrl n (initial baseUrl)))
       = visited (loop_iter e baseUrl n (initial baseUrl))"
    and c: "set (queue (loop_iter e baseUrl n (initial baseUrl)))
       \<inter> set (visited (loop_iter e baseUrl n (initial baseUrl))) = {}"
    using i by (simp_all add: crawl_inv_def)
  have d: "distinct (map url (results (crawl_loop e baseUrl (initial baseUrl))))"
    using f by (simp add: crawl_inv_def)
  have g: "queue s = u # q \<longrightarrow>
        visited (loop_body e baseUrl s)
          = (if u \<in> set (visited s) then visited s else visited s @ [u])"
    by (simp add: loop_body_skip loop_body_visit)
  have h: "newUrl \<in> set vis \<longrightarrow> enqueue vis q' newUrl = q'"
    by (simp add: enqueue_def)
  show ?thesis using a b c d g h by simp
qed

theorem no_url_visited_twice_witness:
  "queue \<lparr>queue = [''https://example.com'', ''https://example.com/b''],
         visited = [''https://example.com''], results = [], written = [], requests = []\<rparr>
     = ''https://example.com'' # [''https://example.com/b'']
   \<and> visited (loop_body (example_env 200) ''https://example.com''
        \<lparr>queue = [''https://example.com'', ''https://example.com/b''],
         visited = [''https://example.com''], results = [], written = [], requests = []\<rparr>)
       = [''https://example.com'']
   \<and> ''https://example.com'' \<in> set [''https://example.com'']
   \<and> enqueue [''https://example.com''] [''https://example.com/b''] ''https://example.com''
       = [''https://example.com/b'']
   \<and> distinct (map url (results (crawl_loop (example_env 200) ''https://example.com''
         (initial ''https://example.com''))))"
  using no_url_visited_twice [of "example_env 200" "''https://example.com''" 0
      "\<lparr>queue = [''https://example.com'', ''https://example.com/b''],
         visited = [''https://example.com''], results = [], written = [], requests = []\<rparr>"
      "''https://example.com''" "[''https://example.com/b'']"
      "''https://example.com''" "[''https://example.com'']" "[''https://example.com/b'']"]
  by simp




text \<open>
  C4. For every crawl, the loop comes to its exit, with an empty queue or with \<open>MAX_URLS\<close>
  visited URLs, and \<open>analyzeWebsite\<close> then writes one more event, the progress of value
  100, whatever the last progress written in the loop was, and closes the stream: the
  events are the two of each visited URL followed by that one, which is the last.
\<close>

theorem final_progress_is_100:
  "events (analyzeWebsite e baseUrl) = written (crawl_loop e baseUrl (initial baseUrl)) @ [Progress 100]
   \<and> last (events (analyzeWebsite e baseUrl)) = Progress 100
   \<and> closed (analyzeWebsite e baseUrl)
   \<and> (queue (crawl_loop e baseUrl (initial baseUrl)) = []
       \<or> length (visited (crawl_loop e baseUrl (initial baseUrl))) = MAX_URLS)
   \<and> length (events (analyzeWebsite e baseUrl))
       = 2 * length (results (crawl_loop e baseUrl (initial baseUrl))) + 1"
proof -
  let ?s = "crawl_loop e baseUrl (initial baseUrl)"
  have f: "crawl_inv ?s"
    by (simp add: crawl_inv_crawl_loop crawl_inv_initial)
  obtain n where "?s = loop_iter e baseUrl n (initial baseUrl)"
    and "\<not> loop_cond (loop_iter e baseUrl n (initial baseUrl))"
    using crawl_loop_is_iter by blast
  then have "\<not> loop_cond ?s" by simp
  moreover have "length (visited ?s) \<le> MAX_URLS"
    using f by (simp add: crawl_inv_def)
  ultimately have x: "queue ?s = [] \<or> length (visited ?s) = MAX_URLS"
    by (auto simp: loop_cond_def)
  have "length (results ?s) = length (visited ?s)"
    using f by (metis crawl_inv_def length_map)
  then have w: "length (written ?s) = 2 * length (results ?s)"
    using f by (simp add: crawl_inv_def)
  show ?thesis using x w by (simp add: analyzeWebsite_def Let_def)
qed

text \<open>
  C5, as amended. In the turn of the loop that visits a URL, \<open>extractUrls\<close> is called, and
  its links are offered to the queue, exactly when the status code of the record is
  200: then the URL is fetched a second time and the queue is what \<open>enqueue_all\<close> makes of
  the links; with any other status code the queue is left as it is and the URL is fetched
  once. The status code of the record is 0 for a rejected fetch and for a successful
  HTML response whose body cannot be read, and the status of the response otherwise, so
  that a transport failure and a status other than 200, the other successes included,
  give no link. For a response with status 200 that is not HTML \<open>extractUrls\<close> is called,
  and it returns no link when its own response is rejected, is not a success or is not
  HTML.
\<close>

theorem links_extracted_iff_status_200:
  "(queue s = u # q \<and> u \<notin> set (visited s)
      \<and> statusCode (fst (analyzePage e (requests s) u baseUrl)) = 200 \<longrightarrow>
        queue (loop_body e baseUrl s)
          = enqueue_all (visited s @ [u]) q (fst (extractUrls e (requests s @ [u]) u baseUrl))
        \<and> requests (loop_body e baseUrl s) = requests s @ [u, u])
   \<and> (queue s = u # q \<and> u \<notin> set (visited s)
      \<and> statusCode (fst (analyzePage e (requests s) u baseUrl)) \<noteq> 200 \<longrightarrow>
        queue (loop_body e baseUrl s) = q
        \<and> requests (loop_body e baseUrl s) = requests s @ [u])
   \<and> (fst (fetch e net u) = Rejected \<longrightarrow>
        statusCode (fst (analyzePage e net u baseUrl)) = 0
        \<and> fst (extractUrls e net u baseUrl) = [])
   \<and> (fst (fetch e net u) = Response r \<longrightarrow>
        statusCode (fst (analyzePage e net u baseUrl))
          = (if ok r \<and> is_html r \<and> body r = None then 0 else status r))
   \<and> (fst (fetch e net u) = Response r \<and> (status r < 200 \<or> 299 < status r \<or> \<not> is_html r) \<longrightarrow>
        fst (extractUrls e net u baseUrl) = [])"
proof -
  have a: "queue s = u # q \<and> u \<notin> set (visited s)
      \<and> statusCode (fst (analyzePage e (requests s) u baseUrl)) = 200 \<longrightarrow>
        queue (loop_body e baseUrl s)
          = enqueue_all (visited s @ [u]) q (fst (extractUrls e (requests s @ [u]) u baseUrl))
        \<and> requests (loop_body e baseUrl s) = requests s @ [u, u]"
    by (simp add: loop_body_visit)
  have b: "queue s = u # q \<and> u \<notin> set (visited s)
      \<and> statusCode (fst (analyzePage e (requests s) u baseUrl)) \<noteq> 200 \<longrightarrow>
        queue (loop_body e baseUrl s) = q
        \<and> requests (loop_body e baseUrl s) = requests s @ [u]"
    by (simp add: loop_body_failed)
  have c: "fst (fetch e net u) = Rejected \<longrightarrow>
        statusCode (fst (analyzePage e net u baseUrl)) = 0
        \<and> fst (extractUrls e net u baseUrl) = []"
    by (simp add: analyzePage_Rejected extractUrls_Rejected default_data_def)
  have d: "fst (fetch e net u) = Response r \<longrightarrow>
        statusCode (fst (analyzePage e net u baseUrl))
          = (if ok r \<and> is_html r \<and> body r = None then 0 else status r)"
    using analyzePage_status [of e net u r baseUrl] by blast
  have f: "fst (fetch e net u) = Response r \<and> (status r < 200 \<or> 299 < status r \<or> \<not> is_html r) \<longrightarrow>
        fst (extractUrls e net u baseUrl) = []"
    using extractUrls_not_html [of e net u r baseUrl] by (auto simp: ok_def)
  show ?thesis using a b c d f by blast
qed

theorem links_extracted_iff_status_200_witness:
  "queue (initial ''https://example.com'') = ''https://example.com'' # []
   \<and> ''https://example.com'' \<notin> set (visited (initial ''https://example.com''))
   \<and> statusCode (fst (analyzePage (example_env 200) (requests (initial ''https://example.com''))
         ''https://example.com'' ''https://example.com'')) = 200
   \<and> queue (loop_body (example_env 200) ''https://example.com'' (initial ''https://example.com''))
       = [''https://EXAMPLE.com/b'', ''https://example.com/logo.png'']
   \<and> statusCode (fst (analyzePage (example_env 204) (requests (initial ''https://example.com''))
         ''https://example.com'' ''https://example.com'')) \<noteq> 200
   \<and> queue (loop_body (example_env 204) ''https://example.com'' (initial ''https://example.com'')) = []
   \<and> requests (loop_body (example_env 204) ''https://example.com'' (initial ''https://example.com''))
       = requests (initial ''https://example.com'') @ [''https://example.com'']
   \<and> fst (fetch (example_env 200) [] ''https://example.com/b'') = Rejected
   \<and> fst (extractUrls (example_env 200) [] ''https://example.com/b'' ''https://example.com'') = []
   \<and> fst (fetch (example_env 200) [] ''https://example.com/logo.png'')
       = Response \<lparr>status = 200, content_type = Some ''image/png'', body = None\<rparr>
   \<and> \<not> is_html \<lparr>status = 200, content_type = Some ''image/png'', body = None\<rparr>
   \<and> statusCode (fst (analyzePage (example_env 200) [] ''https://example.com/logo.png'' ''https://example.com'')) = 200
   \<and> fst (extractUrls (example_env 200) [] ''https://example.com/logo.png'' ''https://example.com'') = []"
proof -
  let ?s = "initial ''https://example.com''"
  let ?r = "\<lparr>status = 200, content_type = Some ''image/png'', body = None\<rparr>"
  note t1 = links_extracted_iff_status_200 [of ?s "''https://example.com''" "[]" "example_env 200"
      "''https://example.com''" "[]" ?r]
  note t2 = links_extracted_iff_status_200 [of ?s "''https://example.com''" "[]" "example_env 204"
      "''https://example.com''" "[]" ?r]
  note t3 = links_extracted_iff_status_200 [of ?s "''https://example.com/b''" "[]" "example_env 200"
      "''https://example.com''" "[]" ?r]
  note t4 = links_extracted_iff_status_200 [of ?s "''https://example.com/logo.png''" "[]" "example_env 200"
      "''https://example.com''" "[]" ?r]
  have a: "queue ?s = ''https://example.com'' # []"
    "''https://example.com'' \<notin> set (visited ?s)" "requests ?s = []" "visited ?s = []"
    by (simp_all add: initial_def)
  have b: "statusCode (fst (analyzePage (example_env 200) (requests ?s)
         ''https://example.com'' ''https://example.com'')) = 200"
    by code_simp
  have x: "enqueue_all [''https://example.com''] []
         (fst (extractUrls (example_env 200) [''https://example.com''] ''https://example.com'' ''https://example.com''))
       = [''https://EXAMPLE.com/b'', ''https://example.com/logo.png'']"
    by code_simp
  have c: "queue (loop_body (example_env 200) ''https://example.com'' ?s)
       = [''https://EXAMPLE.com/b'', ''https://example.com/logo.png'']"
    using t1 a b x by simp
  have d: "statusCode (fst (analyzePage (example_env 204) (requests ?s)
         ''https://example.com'' ''https://example.com'')) \<noteq> 200"
    by code_simp
  have f: "queue (loop_body (example_env 204) ''https://example.com'' ?s) = []
      \<and> requests (loop_body (example_env 204) ''https://example.com'' ?s)
         = requests ?s @ [''https://example.com'']"
    using t2 a d by blast
  have g: "fst (fetch (example_env 200) [] ''https://example.com/b'') = Rejected"
    by code_simp
  have h: "fst (extractUrls (example_env 200) [] ''https://example.com/b'' ''https://example.com'') = []"
    using t3 g by blast
  have i: "fst (fetch (example_env 200) [] ''https://example.com/logo.png'') = Response ?r"
    by code_simp
  have j: "\<not> is_html ?r" "\<not> (ok ?r \<and> is_html ?r \<and> body ?r = None)" "status ?r = 200"
    by (simp_all add: is_html_def)
  have k: "statusCode (fst (analyzePage (example_env 200) [] ''https://example.com/logo.png'' ''https://example.com'')) = 200"
    using t4 i j by simp
  have l: "fst (extractUrls (example_env 200) [] ''https://example.com/logo.png'' ''https://example.com'') = []"
    using t4 i j by blast
  show ?thesis using a b c d f g h i j k l by simp
qed

text \<open>
  C5 as stated fails for a success other than 200: the home page answers 201 with an
  HTML document that has a same-host link, and the visit fetches it once and leaves the
  queue empty; the crawl ends with that one page.
\<close>

theorem status_201_counterexample:
  "fst (fetch (example_env 201) [] ''https://example.com'')
     = html_page 201 [\<lparr>tag = ''title'', attrs = [], inner_text = '' Home ''\<rparr>,
                      \<lparr>tag = ''img'', attrs = [(''src'', ''logo.png''), (''alt'', [])], inner_text = []\<rparr>,
                      \<lparr>tag = ''img'', attrs = [(''src'', ''x.png'')], inner_text = []\<rparr>,
                      anchor ''https://EXAMPLE.com/b/?q=1#top'', anchor ''logo.png'',
                      anchor ''https://other.org/c'', anchor ''#top'']
   \<and> normalize_href (example_env 201) ''https://example.com'' ''https://example.com'' ''logo.png''
       = Some ''https://example.com/logo.png''
   \<and> queue (loop_body (example_env 201) ''https://example.com'' (initial ''https://example.com'')) = []
   \<and> requests (loop_body (example_env 201) ''https://example.com'' (initial ''https://example.com''))
       = [''https://example.com'']
   \<and> visited (crawl_loop (example_env 201) ''https://example.com'' (initial ''https://example.com''))
       = [''https://example.com'']
   \<and> map statusCode (results (crawl_loop (example_env 201) ''https://example.com'' (initial ''https://example.com'')))
       = [201]"
proof -
  let ?s = "initial ''https://example.com''"
  have a: "fst (fetch (example_env 201) [] ''https://example.com'')
     = html_page 201 [\<lparr>tag = ''title'', attrs = [], inner_text = '' Home ''\<rparr>,
                      \<lparr>tag = ''img'', attrs = [(''src'', ''logo.png''), (''alt'', [])], inner_text = []\<rparr>,
                      \<lparr>tag = ''img'', attrs = [(''src'', ''x.png'')], inner_text = []\<rparr>,
                      anchor ''https://EXAMPLE.com/b/?q=1#top'', anchor ''logo.png'',
                      anchor ''https://other.org/c'', anchor ''#top'']"
    by code_simp
  have b: "normalize_href (example_env 201) ''https://example.com'' ''https://example.com'' ''logo.png''
       = Some ''https://example.com/logo.png''"
    by code_simp
  have c: "queue (loop_body (example_env 201) ''https://example.com'' ?s) = []"
    by code_simp
  have d: "requests (loop_body (example_env 201) ''https://example.com'' ?s) = [''https://example.com'']"
    by code_simp
  have "\<not> loop_cond (loop_iter (example_env 201) ''https://example.com'' (Suc 0) ?s)"
    by code_simp
  then have "crawl_loop (example_env 201) ''https://example.com'' ?s
      = loop_iter (example_env 201) ''https://example.com'' (Suc 0) ?s"
    by (rule loop_iter_exit)
  moreover have "visited (loop_iter (example_env 201) ''https://example.com'' (Suc 0) ?s) = [''https://example.com'']"
    by code_simp
  moreover have "map statusCode (results (loop_iter (example_env 201) ''https://example.com'' (Suc 0) ?s)) = [201]"
    by code_simp
  ultimately show ?thesis using a b c d by simp
qed

text \<open>
  C6, as amended. The turn of the loop that visits a URL calls \<open>fetch\<close> for it once, in
  \<open>analyzePage\<close>, when the status code of the record is not 200, and twice when it is: the
  second call is made by \<open>extractUrls\<close>, which takes the URL, not the document, and
  fetches the page again. Each of the two functions calls \<open>fetch\<close> exactly once, and at
  any point of a crawl the number of calls is the number of records plus the number of
  records with status code 200.
\<close>

theorem one_or_two_fetches_per_url:
  "(queue s = u # q \<and> u \<notin> set (visited s) \<longrightarrow>
      requests (loop_body e baseUrl s)
        = requests s @ (if statusCode (fst (analyzePage e (requests s) u baseUrl)) = 200
                        then [u, u] else [u]))
   \<and> snd (analyzePage e net u baseUrl) = net @ [u]
   \<and> snd (extractUrls e net u baseUrl) = net @ [u]
   \<and> length (requests (loop_iter e baseUrl n (initial baseUrl)))
       = length (results (loop_iter e baseUrl n (initial baseUrl)))
         + length (filter (\<lambda>x. statusCode x = 200) (results (loop_iter e baseUrl n (initial baseUrl))))"
proof -
  have a: "queue s = u # q \<and> u \<notin> set (visited s) \<longrightarrow>
      requests (loop_body e baseUrl s)
        = requests s @ (if statusCode (fst (analyzePage e (requests s) u baseUrl)) = 200
                        then [u, u] else [u])"
    by (simp add: loop_body_visit)
  have b: "length (requests (loop_iter e baseUrl n (initial baseUrl)))
       = length (results (loop_iter e baseUrl n (initial baseUrl)))
         + length (filter (\<lambda>x. statusCode x = 200) (results (loop_iter e baseUrl n (initial baseUrl))))"
    by (rule requests_count_loop_iter) (simp add: initial_def)
  show ?thesis using a b by (simp add: analyzePage_log extractUrls_log)
qed

theorem one_or_two_fetches_per_url_witness:
  "queue (initial ''https://example.com'') = ''https://example.com'' # []
   \<and> ''https://example.com'' \<notin> set (visited (initial ''https://example.com''))
   \<and> statusCode (fst (analyzePage (example_env 200) (requests (initial ''https://example.com''))
         ''https://example.com'' ''https://example.com'')) = 200
   \<and> requests (loop_body (example_env 200) ''https://example.com'' (initial ''https://example.com''))
       = requests (initial ''https://example.com'') @ [''https://example.com'', ''https://example.com'']"
proof -
  have a: "queue (initial ''https://example.com'') = ''https://example.com'' # []"
    "''https://example.com'' \<notin> set (visited (initial ''https://example.com''))"
    by (simp_all add: initial_def)
  have b: "statusCode (fst (analyzePage (example_env 200) (requests (initial ''https://example.com''))
         ''https://example.com'' ''https://example.com'')) = 200"
    by code_simp
  show ?thesis
    using one_or_two_fetches_per_url [of "initial ''https://example.com''" "''https://example.com''" "[]"
        "example_env 200" "''https://example.com''" "[]" 0] a b
    by simp
qed

text \<open>
  C6 as stated fails for a page that answers 200: the home page is fetched twice in its
  turn of the loop, and so is every page of the crawl whose record has status code 200.
\<close>

theorem second_fetch_counterexample:
  "requests (loop_body (example_env 200) ''https://example.com'' (initial ''https://example.com''))
     = [''https://example.com'', ''https://example.com'']
   \<and> requests (crawl_loop (example_env 200) ''https://example.com'' (initial ''https://example.com''))
     = [''https://example.com'', ''https://example.com'', ''https://EXAMPLE.com/b'',
        ''https://EXAMPLE.com/b'', ''https://example.com/logo.png'', ''https://example.com/logo.png'',
        ''https://example.com/b'']"
proof -
  let ?s = "initial ''https://example.com''"
  have a: "requests (loop_body (example_env 200) ''https://example.com'' ?s)
     = [''https://example.com'', ''https://example.com'']"
    by code_simp
  have "\<not> loop_cond (loop_iter (example_env 200) ''https://example.com'' 4 ?s)"
    by code_simp
  then have "crawl_loop (example_env 200) ''https://example.com'' ?s
      = loop_iter (example_env 200) ''https://example.com'' 4 ?s"
    by (rule loop_iter_exit)
  moreover have "requests (loop_iter (example_env 200) ''https://example.com'' 4 ?s)
     = [''https://example.com'', ''https://example.com'', ''https://EXAMPLE.com/b'',
        ''https://EXAMPLE.com/b'', ''https://example.com/logo.png'', ''https://example.com/logo.png'',
        ''https://example.com/b'']"
    by code_simp
  ultimately show ?thesis using a by simp
qed

text \<open>
  C7. In every crawl, a URL that is in the queue or was taken from it is the seed, or
  the stripped form of a link that some \<open>href\<close> resolved to and whose host, as the URL
  parser returns it, is the host of the seed; a resolved link whose host is another is
  rejected and adds nothing to the links of the page. The hosts are compared as the
  parser returns them, and the platform's parser puts the host of an http(s) URL in
  lower case: hosts that are the same are the same whatever the case.
\<close>

theorem only_same_host_links_enqueued:
  "(l \<in> set (queue (loop_iter e baseUrl n (initial baseUrl)))
        \<union> set (visited (loop_iter e baseUrl n (initial baseUrl))) \<longrightarrow>
      l = baseUrl
      \<or> (\<exists>u href fullUrl urlObj baseUrlObj.
            resolve_href e u baseUrl href = Some fullUrl \<and> parseURL e fullUrl = Some urlObj
            \<and> parseURL e baseUrl = Some baseUrlObj \<and> host urlObj = host baseUrlObj
            \<and> l = strip_url baseUrl fullUrl))
   \<and> (resolve_href e u' baseUrl href' = Some fullUrl' \<and> parseURL e fullUrl' = Some urlObj'
        \<and> parseURL e baseUrl = Some baseUrlObj' \<and> host urlObj' \<noteq> host baseUrlObj' \<longrightarrow>
      normalize_href e u' baseUrl href' = None
      \<and> set (collect_links e u' baseUrl links [href']) = set links)"
proof -
  have a: "l = baseUrl
      \<or> (\<exists>u href fullUrl urlObj baseUrlObj.
            resolve_href e u baseUrl href = Some fullUrl \<and> parseURL e fullUrl = Some urlObj
            \<and> parseURL e baseUrl = Some baseUrlObj \<and> host urlObj = host baseUrlObj
            \<and> l = strip_url baseUrl fullUrl)"
    if "l \<in> set (queue (loop_iter e baseUrl n (initial baseUrl)))
        \<union> set (visited (loop_iter e baseUrl n (initial baseUrl)))"
  proof -
    have "l \<in> set (queue (initial baseUrl)) \<union> set (visited (initial baseUrl))
       \<or> (\<exists>u href. normalize_href e u baseUrl href = Some l)"
      using loop_iter_urls [OF that] .
    then show ?thesis
    proof
      assume "l \<in> set (queue (initial baseUrl)) \<union> set (visited (initial baseUrl))"
      then show ?thesis by (simp add: initial_def)
    next
      assume "\<exists>u href. normalize_href e u baseUrl href = Some l"
      then obtain u href where "normalize_href e u baseUrl href = Some l" by blast
      from normalize_href_Some [OF this] show ?thesis by blast
    qed
  qed
  have b: "normalize_href e u' baseUrl href' = None
      \<and> set (collect_links e u' baseUrl links [href']) = set links"
    if "resolve_href e u' baseUrl href' = Some fullUrl' \<and> parseURL e fullUrl' = Some urlObj'
        \<and> parseURL e baseUrl = Some baseUrlObj' \<and> host urlObj' \<noteq> host baseUrlObj'"
    using that by (simp add: normalize_href_def)
  show ?thesis using a b by blast
qed

theorem only_same_host_links_enqueued_witness:
  "''https://EXAMPLE.com/b'' \<in> set (queue (loop_iter (example_env 200) ''https://example.com'' 1 (initial ''https://example.com'')))
        \<union> set (visited (loop_iter (example_env 200) ''https://example.com'' 1 (initial ''https://example.com'')))
   \<and> (\<exists>u href fullUrl urlObj baseUrlObj.
            resolve_href (example_env 200) u ''https://example.com'' href = Some fullUrl
            \<and> parseURL (example_env 200) fullUrl = Some urlObj
            \<and> parseURL (example_env 200) ''https://example.com'' = Some baseUrlObj
            \<and> host urlObj = host baseUrlObj
            \<and> ''https://EXAMPLE.com/b'' = strip_url ''https://example.com'' fullUrl)
   \<and> resolve_href (example_env 200) ''https://example.com'' ''https://example.com'' ''https://other.org/c''
        = Some ''https://other.org/c''
   \<and> parseURL (example_env 200) ''https://other.org/c''
        = Some \<lparr>protocol = ''https:'', host = ''other.org'', pathname = ''/c''\<rparr>
   \<and> parseURL (example_env 200) ''https://example.com''
        = Some \<lparr>protocol = ''https:'', host = ''example.com'', pathname = ''/''\<rparr>
   \<and> host \<lparr>protocol = ''https:'', host = ''other.org'', pathname = ''/c''\<rparr>
        \<noteq> host \<lparr>protocol = ''https:'', host = ''example.com'', pathname = ''/''\<rparr>
   \<and> normalize_href (example_env 200) ''https://example.com'' ''https://example.com'' ''https://other.org/c'' = None"
proof -
  have m: "''https://EXAMPLE.com/b'' \<in> set (queue (loop_iter (example_env 200) ''https://example.com'' 1 (initial ''https://example.com'')))
        \<union> set (visited (loop_iter (example_env 200) ''https://example.com'' 1 (initial ''https://example.com'')))"
    by code_simp
  have r: "resolve_href (example_env 200) ''https://example.com'' ''https://example.com'' ''https://other.org/c''
        = Some ''https://other.org/c''"
    by code_simp
  have p: "parseURL (example_env 200) ''https://other.org/c''
        = Some \<lparr>protocol = ''https:'', host = ''other.org'', pathname = ''/c''\<rparr>"
    by code_simp
  have q: "parseURL (example_env 200) ''https://example.com''
        = Some \<lparr>protocol = ''https:'', host = ''example.com'', pathname = ''/''\<rparr>"
    by code_simp
  have d: "''https://EXAMPLE.com/b'' \<noteq> ''https://example.com''" by simp
  have h: "host \<lparr>protocol = ''https:'', host = ''other.org'', pathname = ''/c''\<rparr>
        \<noteq> host \<lparr>protocol = ''https:'', host = ''example.com'', pathname = ''/''\<rparr>"
    by simp
  note t = only_same_host_links_enqueued [of "''https://EXAMPLE.com/b''" "example_env 200"
        "''https://example.com''" 1 "''https://example.com''" "''https://other.org/c''"
        "''https://other.org/c''" "\<lparr>protocol = ''https:'', host = ''other.org'', pathname = ''/c''\<rparr>"
        "\<lparr>protocol = ''https:'', host = ''example.com'', pathname = ''/''\<rparr>" "[]"]
  have a: "\<exists>u href fullUrl urlObj baseUrlObj.
            resolve_href (example_env 200) u ''https://example.com'' href = Some fullUrl
            \<and> parseURL (example_env 200) fullUrl = Some urlObj
            \<and> parseURL (example_env 200) ''https://example.com'' = Some baseUrlObj
            \<and> host urlObj = host baseUrlObj
            \<and> ''https://EXAMPLE.com/b'' = strip_url ''https://example.com'' fullUrl"
    using t m d by blast
  have b: "normalize_href (example_env 200) ''https://example.com'' ''https://example.com'' ''https://other.org/c'' = None"
    using t r p q h by blast
  show ?thesis using m a r p q h b by blast
qed

text \<open>
  C8, as amended. Take a URL parser with the two properties \<open>keeps_scheme\<close> and
  \<open>keeps_host\<close>, and a seed that starts with \<open>http\<close>, as the seed \<open>GET\<close> makes of any
  \<open>domain\<close> does.
  Then every URL of the queue and of the visited set starts with \<open>http\<close>; and for the
  link \<open>l\<close> that \<open>normalize_href\<close> makes of any \<open>href\<close>, absolute, root-relative or
  relative, on a page whose URL starts with \<open>http\<close>: \<open>l\<close> starts with \<open>http\<close>, and
  normalizing \<open>l\<close> again, from any page, gives \<open>l\<close> without its last character when \<open>l\<close>
  ends in a slash and is not the seed, and \<open>l\<close> itself otherwise. So the second
  normalization gives the link back exactly when the link does not end in a slash or
  is the seed.
\<close>

theorem normalize_twice:
  assumes "keeps_scheme e" and "keeps_host e baseUrl" and "startsWith baseUrl ''http''"
  shows "startsWith (if startsWith d ''http'' then d else ''https://'' @ d) ''http''
   \<and> (x \<in> set (queue (loop_iter e baseUrl n (initial baseUrl)))
            \<union> set (visited (loop_iter e baseUrl n (initial baseUrl))) \<longrightarrow>
          startsWith x ''http'')
   \<and> (startsWith u ''http'' \<and> normalize_href e u baseUrl href = Some l \<longrightarrow>
          startsWith l ''http''
          \<and> normalize_href e u' baseUrl l
              = Some (if endsWith l ''/'' \<and> l \<noteq> baseUrl then butlast l else l)
          \<and> ((normalize_href e u' baseUrl l = Some l) = (\<not> endsWith l ''/'' \<or> l = baseUrl)))"
proof -
  have a: "startsWith x ''http''"
    if "x \<in> set (queue (loop_iter e baseUrl n (initial baseUrl)))
            \<union> set (visited (loop_iter e baseUrl n (initial baseUrl)))"
  proof (rule loop_iter_http [OF assms(1,3) _ that])
    fix y
    assume "y \<in> set (queue (initial baseUrl)) \<union> set (visited (initial baseUrl))"
    then show "startsWith y ''http''" using assms(3) by (simp add: initial_def)
  qed
  have b: "startsWith l ''http''
          \<and> normalize_href e u' baseUrl l
              = Some (if endsWith l ''/'' \<and> l \<noteq> baseUrl then butlast l else l)
          \<and> ((normalize_href e u' baseUrl l = Some l) = (\<not> endsWith l ''/'' \<or> l = baseUrl))"
    if h: "startsWith u ''http'' \<and> normalize_href e u baseUrl href = Some l"
  proof -
    have s: "startsWith l ''http''"
      using normalize_href_http [OF assms(1,3)] h by blast
    then have "l \<noteq> []" by auto
    then have d: "butlast l \<noteq> l"
      by (metis append_butlast_last_id self_append_conv not_Cons_self2)
    have t: "normalize_href e u' baseUrl l
              = Some (if endsWith l ''/'' \<and> l \<noteq> baseUrl then butlast l else l)"
      using normalize_href_again [OF assms(1,2,3)] h by blast
    show ?thesis using s t d by auto
  qed
  have g: "startsWith (if startsWith d ''http'' then d else ''https://'' @ d) ''http''"
    by simp
  show ?thesis using g a b by blast
qed

theorem normalize_twice_witness:
  "keeps_scheme (example_env 200) \<and> keeps_host (example_env 200) ''https://example.com''
   \<and> startsWith ''https://example.com'' ''http''
   \<and> ''https://example.com/logo.png''
        \<in> set (queue (loop_iter (example_env 200) ''https://example.com'' 1 (initial ''https://example.com'')))
          \<union> set (visited (loop_iter (example_env 200) ''https://example.com'' 1 (initial ''https://example.com'')))
   \<and> startsWith ''https://example.com/logo.png'' ''http''
   \<and> normalize_href (example_env 200) ''https://example.com'' ''https://example.com'' ''logo.png''
       = Some ''https://example.com/logo.png''
   \<and> \<not> endsWith ''https://example.com/logo.png'' ''/''
   \<and> normalize_href (example_env 200) ''https://EXAMPLE.com/b'' ''https://example.com''
        ''https://example.com/logo.png'' = Some ''https://example.com/logo.png''
   \<and> normalize_href (example_env 200) ''https://example.com'' ''https://example.com'' ''/a//''
       = Some ''https://example.com/a/''
   \<and> endsWith ''https://example.com/a/'' ''/''
   \<and> normalize_href (example_env 200) ''https://EXAMPLE.com/b'' ''https://example.com''
        ''https://example.com/a/'' = Some ''https://example.com/a''"
proof -
  let ?e = "example_env 200"
  let ?b = "''https://example.com''"
  have ks: "keeps_scheme ?e" by (rule example_env_keeps_scheme)
  have kh: "keeps_host ?e ?b" by (rule example_env_keeps_host)
  have sb: "startsWith ?b ''http''" by simp
  note t1 = normalize_twice [OF ks kh sb, of "''example.com''" "''https://example.com/logo.png''" 1 ?b "''logo.png''"
      "''https://example.com/logo.png''" "''https://EXAMPLE.com/b''"]
  note t2 = normalize_twice [OF ks kh sb, of "''example.com''" "''https://example.com/logo.png''" 1 ?b "''/a//''"
      "''https://example.com/a/''" "''https://EXAMPLE.com/b''"]
  have m: "''https://example.com/logo.png''
        \<in> set (queue (loop_iter ?e ?b 1 (initial ?b))) \<union> set (visited (loop_iter ?e ?b 1 (initial ?b)))"
    by code_simp
  have x: "startsWith ''https://example.com/logo.png'' ''http''"
    using t1 m by blast
  have n1: "normalize_href ?e ?b ?b ''logo.png'' = Some ''https://example.com/logo.png''"
    by code_simp
  have e1: "\<not> endsWith ''https://example.com/logo.png'' ''/''"
    by (simp add: endsWith_def)
  have r1: "normalize_href ?e ''https://EXAMPLE.com/b'' ?b ''https://example.com/logo.png''
      = Some ''https://example.com/logo.png''"
    using t1 sb n1 e1 by blast
  have n2: "normalize_href ?e ?b ?b ''/a//'' = Some ''https://example.com/a/''"
    by code_simp
  have e2: "endsWith ''https://example.com/a/'' ''/''" "''https://example.com/a/'' \<noteq> ?b"
    "butlast ''https://example.com/a/'' = ''https://example.com/a''"
    by (simp_all add: endsWith_def)
  have "normalize_href ?e ''https://EXAMPLE.com/b'' ?b ''https://example.com/a/''
      = Some (if endsWith ''https://example.com/a/'' ''/'' \<and> ''https://example.com/a/'' \<noteq> ?b
              then butlast ''https://example.com/a/'' else ''https://example.com/a/'')"
    using t2 sb n2 by blast
  then have r2: "normalize_href ?e ''https://EXAMPLE.com/b'' ?b ''https://example.com/a/''
      = Some ''https://example.com/a''"
    using e2 by simp
  show ?thesis using ks kh sb m x n1 e1 r1 n2 e2(1) r2 by blast
qed

text \<open>
  C8 as stated fails for a link with two trailing slashes, of which one pass removes
  one: \<open>/a//\<close> on the home page becomes \<open>https://example.com/a/\<close>, and that becomes
  \<open>https://example.com/a\<close>.
\<close>

theorem double_slash_counterexample:
  "normalize_href (example_env 200) ''https://example.com'' ''https://example.com'' ''/a//''
     = Some ''https://example.com/a/''
   \<and> normalize_href (example_env 200) ''https://example.com'' ''https://example.com''
       ''https://example.com/a/'' = Some ''https://example.com/a''
   \<and> ''https://example.com/a'' \<noteq> ''https://example.com/a/''"
  by code_simp

text \<open>
  C9, as amended. When the resolved URL of a same-host link, its hash and query removed,
  ends in a slash, \<open>strip_url\<close> removes that one slash unless the URL, the slash included,
  is the seed, in which case it is returned as it is; and the link \<open>normalize_href\<close>
  gives is \<open>strip_url\<close> of the resolved URL.
\<close>

theorem keeps_slash_only_of_seed:
  "(endsWith (split_first (CHR ''?'') (split_first (CHR ''#'') fullUrl)) ''/''
      \<and> split_first (CHR ''?'') (split_first (CHR ''#'') fullUrl) \<noteq> baseUrl \<longrightarrow>
        strip_url baseUrl fullUrl @ ''/'' = split_first (CHR ''?'') (split_first (CHR ''#'') fullUrl))
   \<and> (split_first (CHR ''?'') (split_first (CHR ''#'') fullUrl) = baseUrl \<longrightarrow>
        strip_url baseUrl fullUrl = baseUrl)
   \<and> (href \<noteq> [] \<and> resolve_href e u baseUrl href = Some fullUrl
      \<and> parseURL e fullUrl = Some urlObj \<and> parseURL e baseUrl = Some baseUrlObj
      \<and> host urlObj = host baseUrlObj \<longrightarrow>
        normalize_href e u baseUrl href = Some (strip_url baseUrl fullUrl))"
proof -
  let ?s = "split_first (CHR ''?'') (split_first (CHR ''#'') fullUrl)"
  have a: "endsWith ?s ''/'' \<and> ?s \<noteq> baseUrl \<longrightarrow> strip_url baseUrl fullUrl @ ''/'' = ?s"
  proof
    assume h: "endsWith ?s ''/'' \<and> ?s \<noteq> baseUrl"
    then have "?s \<noteq> [] \<and> last ?s = CHR ''/''" by (simp add: endsWith_slash)
    then have "butlast ?s @ ''/'' = ?s" using append_butlast_last_id [of ?s] by simp
    then show "strip_url baseUrl fullUrl @ ''/'' = ?s"
      using h by (simp add: strip_url_def)
  qed
  have b: "?s = baseUrl \<longrightarrow> strip_url baseUrl fullUrl = baseUrl"
    by (simp add: strip_url_def)
  have c: "href \<noteq> [] \<and> resolve_href e u baseUrl href = Some fullUrl
      \<and> parseURL e fullUrl = Some urlObj \<and> parseURL e baseUrl = Some baseUrlObj
      \<and> host urlObj = host baseUrlObj \<longrightarrow>
        normalize_href e u baseUrl href = Some (strip_url baseUrl fullUrl)"
    by (simp add: normalize_href_def)
  show ?thesis using a b c by blast
qed

theorem keeps_slash_only_of_seed_witness:
  "endsWith (split_first (CHR ''?'') (split_first (CHR ''#'') ''https://EXAMPLE.com/b/?q=1#top'')) ''/''
   \<and> split_first (CHR ''?'') (split_first (CHR ''#'') ''https://EXAMPLE.com/b/?q=1#top'')
       \<noteq> ''https://example.com''
   \<and> strip_url ''https://example.com'' ''https://EXAMPLE.com/b/?q=1#top'' @ ''/''
       = split_first (CHR ''?'') (split_first (CHR ''#'') ''https://EXAMPLE.com/b/?q=1#top'')
   \<and> split_first (CHR ''?'') (split_first (CHR ''#'') ''https://example.com/#top'')
       = ''https://example.com/''
   \<and> strip_url ''https://example.com/'' ''https://example.com/#top'' = ''https://example.com/''
   \<and> ''https://EXAMPLE.com/b/?q=1#top'' \<noteq> []
   \<and> resolve_href (example_env 200) ''https://example.com'' ''https://example.com''
        ''https://EXAMPLE.com/b/?q=1#top'' = Some ''https://EXAMPLE.com/b/?q=1#top''
   \<and> parseURL (example_env 200) ''https://EXAMPLE.com/b/?q=1#top''
       = Some \<lparr>protocol = ''https:'', host = ''example.com'', pathname = ''/b/''\<rparr>
   \<and> parseURL (example_env 200) ''https://example.com''
       = Some \<lparr>protocol = ''https:'', host = ''example.com'', pathname = ''/''\<rparr>
   \<and> normalize_href (example_env 200) ''https://example.com'' ''https://example.com''
        ''https://EXAMPLE.com/b/?q=1#top''
       = Some (strip_url ''https://example.com'' ''https://EXAMPLE.com/b/?q=1#top'')"
proof -
  let ?e = "example_env 200"
  let ?f = "''https://EXAMPLE.com/b/?q=1#top''"
  note t1 = keeps_slash_only_of_seed [of ?f "''https://example.com''" ?f ?e "''https://example.com''"
      "\<lparr>protocol = ''https:'', host = ''example.com'', pathname = ''/b/''\<rparr>"
      "\<lparr>protocol = ''https:'', host = ''example.com'', pathname = ''/''\<rparr>"]
  note t2 = keeps_slash_only_of_seed [of "''https://example.com/#top''" "''https://example.com/''" ?f ?e
      "''https://example.com''"
      "\<lparr>protocol = ''https:'', host = ''example.com'', pathname = ''/b/''\<rparr>"
      "\<lparr>protocol = ''https:'', host = ''example.com'', pathname = ''/''\<rparr>"]
  have a: "endsWith (split_first (CHR ''?'') (split_first (CHR ''#'') ?f)) ''/''"
    "split_first (CHR ''?'') (split_first (CHR ''#'') ?f) \<noteq> ''https://example.com''"
    by code_simp+
  have b: "strip_url ''https://example.com'' ?f @ ''/''
       = split_first (CHR ''?'') (split_first (CHR ''#'') ?f)"
    using t1 a by blast
  have c: "split_first (CHR ''?'') (split_first (CHR ''#'') ''https://example.com/#top'')
       = ''https://example.com/''"
    by code_simp
  have d: "strip_url ''https://example.com/'' ''https://example.com/#top'' = ''https://example.com/''"
    using t2 c by blast
  have n: "?f \<noteq> []" by simp
  have r: "resolve_href ?e ''https://example.com'' ''https://example.com'' ?f = Some ?f"
    by code_simp
  have p: "parseURL ?e ?f = Some \<lparr>protocol = ''https:'', host = ''example.com'', pathname = ''/b/''\<rparr>"
    by code_simp
  have q: "parseURL ?e ''https://example.com''
       = Some \<lparr>protocol = ''https:'', host = ''example.com'', pathname = ''/''\<rparr>"
    by code_simp
  have h: "host \<lparr>protocol = ''https:'', host = ''example.com'', pathname = ''/b/''\<rparr>
      = host \<lparr>protocol = ''https:'', host = ''example.com'', pathname = ''/''\<rparr>"
    by simp
  have m: "normalize_href ?e ''https://example.com'' ''https://example.com'' ?f
       = Some (strip_url ''https://example.com'' ?f)"
    using t1 n r p q h by blast
  show ?thesis using a b c d n r p q m by blast
qed

text \<open>
  C9 as stated fails when the seed has no trailing slash and the link is the seed with
  one: the form without the slash is the seed, and the slash is removed all the same.
  With a seed that ends in a slash, the link to it keeps its slash, though the form
  without it is not the seed.
\<close>

theorem slash_before_seed_counterexample:
  "endsWith ''https://example.com/'' ''/''
   \<and> butlast ''https://example.com/'' = ''https://example.com''
   \<and> normalize_href (example_env 200) ''https://example.com'' ''https://example.com''
       ''https://example.com/'' = Some ''https://example.com''
   \<and> normalize_href (example_env 200) ''https://example.com/'' ''https://example.com/''
       ''https://example.com/'' = Some ''https://example.com/''"
  by code_simp

text \<open>
  C10. In every record \<open>analyzePage\<close> returns, \<open>imgWithAlt\<close> is at most \<open>imgCount\<close>: the
  \<open>img\<close> elements with an \<open>alt\<close> attribute are among the \<open>img\<close> elements of the
  document, and both counts are 0 in the default record, which is returned for a failed
  fetch, a status that is not a success, and a content that is not HTML.
\<close>

theorem images_with_alt_bounded:
  "imgWithAlt (fst (analyzePage e net u baseUrl)) \<le> imgCount (fst (analyzePage e net u baseUrl))
   \<and> imgWithAlt (extract_seo data d) \<le> imgCount (extract_seo data d)
   \<and> imgWithAlt (default_data u sc) = 0 \<and> imgCount (default_data u sc) = 0"
proof -
  have x: "imgWithAlt (extract_seo dt dc) \<le> imgCount (extract_seo dt dc)" for dt dc
    by (simp add: extract_seo_def by_tag_attr_filter)
  have y: "imgWithAlt (default_data u sc) = 0 \<and> imgCount (default_data u sc) = 0" for sc
    by (simp add: default_data_def)
  have "imgWithAlt (fst (analyzePage e net u baseUrl)) \<le> imgCount (fst (analyzePage e net u baseUrl))"
    using x y by (simp add: analyzePage_def fetch_def split: fetch_result.splits option.splits)
  then show ?thesis using x y by simp
qed

end
